theory Spec2Isabelle
  imports Main "HOL-Library.Finite_Map"
begin

section \<open>Data model (migrations.sql)\<close>

text \<open>
  JSON values as they travel in request and response bodies and in the JSONB column
  \<open>response\<close>. \<open>JTime t\<close> is the JSON string that renders the timestamp \<open>t\<close>. An object
  is a finite map from member names to values: the order of its members is no part of
  the value, so the reordering of members by JSONB does not show.
\<close>

datatype json =
    JNull
  | JBool bool
  | JNum int
  | JStr string
  | JTime int
  | JObj "(string, json) fmap"

text \<open>The four texts the code ever writes into the column \<open>status\<close>.\<close>

datatype key_status = Reserved | Processing | Completed | Failed

fun status_text :: "key_status \<Rightarrow> string" where
  "status_text Reserved = ''reserved''"
| "status_text Processing = ''processing''"
| "status_text Completed = ''completed''"
| "status_text Failed = ''failed''"

text \<open>
  One row of \<open>idempotency_keys\<close>. A nullable column is an \<open>option\<close> (\<open>None\<close> is SQL NULL);
  timestamps are integers (milliseconds since the epoch).
\<close>

record key_row =
  key :: string
  status :: key_status
  response :: "json option"
  user_id :: "int option"
  operation :: "string option"
  reserved_until :: "int option"
  created_at :: int
  updated_at :: int

text \<open>One row of \<open>payments\<close>.\<close>

record payment =
  p_id :: int
  p_user_id :: int
  p_amount :: int
  p_created_at :: int

text \<open>
  The database: both tables in row order, the sequence behind \<open>payments.id\<close> (SERIAL),
  and the clock that \<open>now()\<close> reads.
\<close>

record db =
  idempotency_keys :: "key_row list"
  payments :: "payment list"
  payments_id_seq :: int
  now :: int

text \<open>\<open>key TEXT PRIMARY KEY\<close>: no two rows carry the same key.\<close>

definition primary_key :: "db \<Rightarrow> bool" where
  "primary_key s \<longleftrightarrow> distinct (map key (idempotency_keys s))"

subsection \<open>SQL comparisons and JavaScript coercions\<close>

text \<open>A comparison with NULL on either side is not true.\<close>

definition sql_eq :: "int option \<Rightarrow> int option \<Rightarrow> bool" where
  "sql_eq a b = (case a of None \<Rightarrow> False | Some x \<Rightarrow> (case b of None \<Rightarrow> False | Some y \<Rightarrow> x = y))"

definition sql_gt :: "int option \<Rightarrow> int option \<Rightarrow> bool" where
  "sql_gt a b = (case a of None \<Rightarrow> False | Some x \<Rightarrow> (case b of None \<Rightarrow> False | Some y \<Rightarrow> x > y))"

definition sql_lt :: "int option \<Rightarrow> int option \<Rightarrow> bool" where
  "sql_lt a b = (case a of None \<Rightarrow> False | Some x \<Rightarrow> (case b of None \<Rightarrow> False | Some y \<Rightarrow> x < y))"

text \<open>
  A request field that may be missing is an \<open>option\<close>. \<open>!v\<close> holds of a missing field,
  of the number 0 and of the empty string; \<open>v || null\<close> turns those into null.
\<close>

definition falsy :: "int option \<Rightarrow> bool" where
  "falsy v \<longleftrightarrow> v = None \<or> v = Some 0"

definition falsy_text :: "string option \<Rightarrow> bool" where
  "falsy_text v \<longleftrightarrow> v = None \<or> v = Some []"

definition or_null :: "int option \<Rightarrow> int option" where
  "or_null v = (if falsy v then None else v)"

definition or_null_text :: "string option \<Rightarrow> string option" where
  "or_null_text v = (if falsy_text v then None else v)"

text \<open>The JSONB column as JavaScript reads it: NULL is null.\<close>

definition from_column :: "json option \<Rightarrow> json" where
  "from_column c = (case c of None \<Rightarrow> JNull | Some v \<Rightarrow> v)"

subsection \<open>What the columns take\<close>

text \<open>
  \<open>user_id\<close>, \<open>amount\<close> and \<open>payments.id\<close> are INT, 32 bits wide. A number outside that
  range cannot be bound to such a column or compared with it: the statement is refused
  before it runs, and the query throws.
\<close>

definition INT_ok :: "int \<Rightarrow> bool" where
  "INT_ok n \<longleftrightarrow> - 2147483648 \<le> n \<and> n \<le> 2147483647"

text \<open>A parameter that is null or a number within INT.\<close>

definition binds :: "int option \<Rightarrow> bool" where
  "binds p = (case p of None \<Rightarrow> True | Some n \<Rightarrow> INT_ok n)"

text \<open>A number in decimal digits, as it is sent to the database and as the error quotes it.\<close>

function decimal :: "nat \<Rightarrow> string" where
  "decimal n =
     (if n < 10 then [''0123456789'' ! n]
      else decimal (n div 10) @ [''0123456789'' ! (n mod 10)])"
  by pat_completeness auto
termination
  by (relation "measure id") auto

declare decimal.simps [simp del]

definition show_int :: "int \<Rightarrow> string" where
  "show_int i = (if i < 0 then CHR ''-'' # decimal (nat (- i)) else decimal (nat i))"

text \<open>
  The message of the error that refuses the number \<open>n\<close> for an INT. The text is that of
  a number which JavaScript holds exactly and writes in plain digits; a larger one is
  refused as well, in other words.
\<close>

definition out_of_range :: "int \<Rightarrow> string" where
  "out_of_range n =
     ''value '' @ [CHR 0x22] @ show_int n @ [CHR 0x22] @ '' is out of range for type integer''"

text \<open>The message of the error that \<open>nextval\<close> raises when the sequence of \<open>payments.id\<close> is used up.\<close>

definition sequence_exhausted :: string where
  "sequence_exhausted =
     ''nextval: reached maximum value of sequence '' @ [CHR 0x22] @ ''payments_id_seq''
       @ [CHR 0x22] @ '' (2147483647)''"

text \<open>
  \<open>reserved_until\<close> is sent as the text of \<open>toISOString()\<close>. That call throws on a time
  outside the range of \<open>Date\<close>, and for a year outside 0001 to 9999 it gives the
  expanded form with a sign (or the year 0000), which the TIMESTAMP column refuses. The
  times that reach the column are those from 0001-01-01T00:00:00.000Z to
  9999-12-31T23:59:59.999Z.
\<close>

definition TIMESTAMP_ok :: "int \<Rightarrow> bool" where
  "TIMESTAMP_ok t \<longleftrightarrow> - 62135596800000 \<le> t \<and> t \<le> 253402300799999"

text \<open>
  TEXT and JSONB hold no NUL character. A text parameter that carries one is refused,
  and so is a JSON document with a NUL (the escape \<open>\u0000\<close>) in a string or in a
  member name: the query throws and nothing is written.
\<close>

definition TEXT_ok :: "string \<Rightarrow> bool" where
  "TEXT_ok x \<longleftrightarrow> CHR 0x00 \<notin> set x"

definition text_binds :: "string option \<Rightarrow> bool" where
  "text_binds p = (case p of None \<Rightarrow> True | Some x \<Rightarrow> TEXT_ok x)"

primrec JSONB_ok :: "json \<Rightarrow> bool" where
  "JSONB_ok JNull = True"
| "JSONB_ok (JBool b) = True"
| "JSONB_ok (JNum n) = True"
| "JSONB_ok (JStr x) = TEXT_ok x"
| "JSONB_ok (JTime t) = True"
| "JSONB_ok (JObj m) = fmpred (\<lambda>name ok. TEXT_ok name \<and> ok) (fmmap JSONB_ok m)"

text \<open>The message of the error that refuses such a document.\<close>

definition unsupported_escape :: string where
  "unsupported_escape = ''unsupported Unicode escape sequence''"

subsection \<open>HTTP responses\<close>

datatype http_response = Http nat json

section \<open>Queries on \<open>idempotency_keys\<close>\<close>

text \<open>\<open>SELECT ... FROM idempotency_keys WHERE key=$1\<close>: the rows that carry the key.\<close>

definition select_key :: "string \<Rightarrow> db \<Rightarrow> key_row list" where
  "select_key k s = filter (\<lambda>r. key r = k) (idempotency_keys s)"

text \<open>
  The WHERE clause of \<open>tryClaimKey\<close>, with \<open>p\<close> the parameter \<open>$2\<close> and \<open>t\<close> the value
  of \<open>now()\<close>.
\<close>

definition claim_where :: "string \<Rightarrow> int option \<Rightarrow> int \<Rightarrow> key_row \<Rightarrow> bool" where
  "claim_where k p t r \<longleftrightarrow>
     key r = k
     \<and> status r = Reserved
     \<and> (user_id r = None \<or> sql_eq (user_id r) p)
     \<and> (reserved_until r = None \<or> sql_gt (reserved_until r) (Some t))"

text \<open>
  The UPDATE of \<open>tryClaimKey\<close> once its parameters are bound: the result is
  \<open>q.rowCount === 1\<close>, next to the database after the statement.
\<close>

definition claim_update :: "string \<Rightarrow> int option \<Rightarrow> db \<Rightarrow> bool \<times> db" where
  "claim_update k p s =
     (let t = now s;
          rowCount = length (filter (claim_where k p t) (idempotency_keys s))
      in (rowCount = 1,
          s\<lparr>idempotency_keys :=
               map (\<lambda>r. if claim_where k p t r
                         then r\<lparr>status := Processing, updated_at := t\<rparr> else r)
                   (idempotency_keys s)\<rparr>))"

text \<open>
  \<open>tryClaimKey(key, user_id)\<close>. \<open>$2\<close> is \<open>user_id || null\<close> and is compared with the INT
  column \<open>user_id\<close>: a number outside INT is refused, the query throws (\<open>Inl\<close> carries
  the message) and nothing is written.
\<close>

definition tryClaimKey :: "string \<Rightarrow> int option \<Rightarrow> db \<Rightarrow> string + bool \<times> db" where
  "tryClaimKey k uid s =
     (case or_null uid of
        None \<Rightarrow> Inr (claim_update k None s)
      | Some n \<Rightarrow> if INT_ok n then Inr (claim_update k (Some n) s) else Inl (out_of_range n))"

text \<open>
  \<open>UPDATE idempotency_keys SET status=$2, response=$3, updated_at=now() WHERE key=$1\<close>:
  the write of the terminal status, unconditional but for the key. Both calls in the
  handler pass an object as \<open>$3\<close>, which goes to the column as its JSON text;
  \<open>payload\<close> is that object.
\<close>

definition record_result :: "string \<Rightarrow> key_status \<Rightarrow> (string, json) fmap \<Rightarrow> db \<Rightarrow> db" where
  "record_result k st payload s =
     s\<lparr>idempotency_keys :=
          map (\<lambda>r. if key r = k
                    then r\<lparr>status := st, response := Some (JObj payload), updated_at := now s\<rparr>
                    else r)
              (idempotency_keys s)\<rparr>"

text \<open>
  The statement as the handler issues it: when JSONB cannot hold the payload the query
  throws (\<open>Inl\<close> carries the message) and nothing is written.
\<close>

definition update_result :: "string \<Rightarrow> key_status \<Rightarrow> (string, json) fmap \<Rightarrow> db \<Rightarrow> string + db" where
  "update_result k st payload s =
     (if JSONB_ok (JObj payload) then Inr (record_result k st payload s)
      else Inl unsupported_escape)"

section \<open>cleanup_expired_keys.js\<close>

definition cleanup_where :: "int \<Rightarrow> key_row \<Rightarrow> bool" where
  "cleanup_where t r \<longleftrightarrow>
     status r = Reserved \<and> reserved_until r \<noteq> None \<and> sql_lt (reserved_until r) (Some t)"

text \<open>\<open>cleanup()\<close>: one DELETE; the count is the \<open>q.rowCount\<close> that is logged.\<close>

definition cleanup :: "db \<Rightarrow> nat \<times> db" where
  "cleanup s =
     (length (filter (cleanup_where (now s)) (idempotency_keys s)),
      s\<lparr>idempotency_keys := filter (\<lambda>r. \<not> cleanup_where (now s) r) (idempotency_keys s)\<rparr>)"

section \<open>index.js\<close>

subsection \<open>POST /idempotency-keys\<close>

text \<open>
  The handler that issues a key. \<open>k\<close> is what \<open>makeKey()\<close> returned and \<open>date_now\<close> what
  \<open>Date.now()\<close> returned (the clock of the application server, which need not be the
  clock behind \<open>now()\<close>); \<open>KEY_TTL_MINUTES\<close> is the configured lifetime (1440 unless
  the environment sets it). Whatever throws under the \<open>try\<close> gives the answer 500 and
  leaves the table as it was: \<open>toISOString()\<close> or the column refusing the time, the
  column refusing a \<open>user_id\<close> outside INT or an \<open>operation\<close> with a NUL character,
  and the INSERT of a key that is already there (PRIMARY KEY).
\<close>

definition default_KEY_TTL_MINUTES :: int where
  "default_KEY_TTL_MINUTES = 1440"

definition post_idempotency_keys ::
  "int \<Rightarrow> string \<Rightarrow> int \<Rightarrow> int option \<Rightarrow> string option \<Rightarrow> db \<Rightarrow> http_response \<times> db" where
  "post_idempotency_keys KEY_TTL_MINUTES k date_now uid opn s =
     (let reservedUntil = date_now + KEY_TTL_MINUTES * 60 * 1000 in
      if \<not> TIMESTAMP_ok reservedUntil \<or> \<not> binds (or_null uid)
         \<or> \<not> text_binds (or_null_text opn)
         \<or> k \<in> set (map key (idempotency_keys s))
      then (Http 500 (JObj (fmap_of_list [(''error'', JStr ''failed to create idempotency key'')])), s)
      else (Http 200 (JObj (fmap_of_list [(''idempotencyKey'', JStr k),
                                            (''reserved_until'', JTime reservedUntil)])),
            s\<lparr>idempotency_keys := idempotency_keys s @
                 [\<lparr>key = k, status = Reserved, response = None, user_id = or_null uid,
                   operation = or_null_text opn, reserved_until = Some reservedUntil,
                   created_at = now s, updated_at = now s\<rparr>]\<rparr>))"

subsection \<open>POST /pay\<close>

text \<open>
  A request: the header \<open>Idempotency-Key\<close> and the two body fields, which are whole
  numbers when they are there.

  Of the handler's statements the claim, the payment transaction and the write of
  \<open>failed\<close> are the ones that the data at hand can make throw; the SELECTs and the
  write of \<open>completed\<close> are taken to succeed, and \<open>res.json\<close> not to throw.
\<close>

record pay_req =
  idempotency_key :: "string option"
  body_user_id :: "int option"
  body_amount :: "int option"

text \<open>
  What one run of the handler gives: the HTTP response, the number of SELECTs its
  short-poll loop issued, and the database after its last statement.
\<close>

record outcome =
  reply :: http_response
  polls :: nat
  final :: db

text \<open>
  The handler awaits each of its statements, and other executors work on the same
  database meanwhile. \<open>env i\<close> is what the others do to the database before the
  handler's statement number \<open>i\<close> (0 the first SELECT, 1 the claim, 2 and 3 the payment
  transaction and the terminal write of a winner, \<open>2 + j\<close> the loop's read number \<open>j\<close>
  of a loser). \<open>alone\<close> is a run with nobody else at work.
\<close>

type_synonym interleaving = "nat \<Rightarrow> db \<Rightarrow> db"

definition alone :: interleaving where
  "alone i s = s"

text \<open>
  The payment transaction (BEGIN, INSERT INTO payments, COMMIT). It throws when
  \<open>user_id\<close> or \<open>amount\<close> is outside INT, when the sequence behind \<open>id\<close> is used up, and
  when something outside the request fails (\<open>fault\<close> is then the message); the ROLLBACK
  leaves no row.
\<close>

definition insert_payment :: "string option \<Rightarrow> int \<Rightarrow> int \<Rightarrow> db \<Rightarrow> string + (payment \<times> db)" where
  "insert_payment fault uid amt s =
     (case fault of
        Some msg \<Rightarrow> Inl msg
      | None \<Rightarrow>
          if \<not> INT_ok uid then Inl (out_of_range uid)
          else if \<not> INT_ok amt then Inl (out_of_range amt)
          else if \<not> INT_ok (payments_id_seq s + 1) then Inl sequence_exhausted
          else
            (let p = \<lparr>p_id = payments_id_seq s + 1, p_user_id = uid, p_amount = amt,
                      p_created_at = now s\<rparr>
             in Inr (p, s\<lparr>payments := payments s @ [p], payments_id_seq := payments_id_seq s + 1\<rparr>)))"

definition maxWaitMs :: int where
  "maxWaitMs = 5000"

definition intervalMs :: int where
  "intervalMs = 100"

text \<open>The message of the TypeError that \<open>r.status\<close> raises when \<open>q.rows[0]\<close> is undefined.\<close>

definition undefined_status :: string where
  "undefined_status =
     ''Cannot read properties of undefined (reading '' @ [CHR 0x27] @ ''status'' @ [CHR 0x27] @ '')''"

text \<open>
  The short-poll loop of the branch that did not claim. \<open>Inl\<close> is an exception leaving
  the loop; the second component counts the loop's SELECTs.
\<close>

function short_poll ::
  "interleaving \<Rightarrow> string \<Rightarrow> nat \<Rightarrow> int \<Rightarrow> db \<Rightarrow> (string + http_response) \<times> nat \<times> db" where
  "short_poll env k i waited s =
     (if waited < maxWaitMs then
        (let s1 = env i s in
         case select_key k s1 of
           [] \<Rightarrow> (Inl undefined_status, 1, s1)
         | r # _ \<Rightarrow>
             if status r = Completed then (Inr (Http 200 (from_column (response r))), 1, s1)
             else if status r = Failed
               then (Inr (Http 500 (JObj (fmap_of_list
                            [(''error'', JStr ''Previous attempt failed''),
                             (''detail'', from_column (response r))]))), 1, s1)
             else (case short_poll env k (Suc i) (waited + intervalMs) s1 of
                     (res, n, s2) \<Rightarrow> (res, Suc n, s2)))
      else (Inr (Http 202 (JObj (fmap_of_list
                   [(''status'', JStr ''processing''),
                    (''message'', JStr ''Request being processed; check status endpoint.'')]))),
            0, s))"
  by pat_completeness auto
termination
  by (relation "measure (\<lambda>(env, k, i, waited, s). nat (maxWaitMs - waited))")
     (auto simp: maxWaitMs_def intervalMs_def)

declare short_poll.simps [simp del]

text \<open>
  The branch of the caller whose claim succeeded. \<open>responsePayload\<close> holds a boolean, a
  number and a timestamp, which JSONB takes, so the write of \<open>completed\<close> is the
  UPDATE itself. The write of \<open>failed\<close> carries the message of the error: when JSONB
  refuses it, the query throws inside the \<open>catch\<close> block and the outer \<open>catch\<close> answers.
\<close>

definition claimed_branch ::
  "interleaving \<Rightarrow> string option \<Rightarrow> string \<Rightarrow> int \<Rightarrow> int \<Rightarrow> db \<Rightarrow> outcome" where
  "claimed_branch env fault idempKey uid amt s2 =
     (let s3 = env 2 s2 in
      case insert_payment fault uid amt s3 of
        Inr (p, s4) \<Rightarrow>
          (let responsePayload =
                 fmap_of_list [(''success'', JBool True), (''paymentId'', JNum (p_id p)),
                               (''created_at'', JTime (p_created_at p))]
           in \<lparr>reply = Http 200 (JObj responsePayload), polls = 0,
               final = record_result idempKey Completed responsePayload (env 3 s4)\<rparr>)
      | Inl msg \<Rightarrow>
          (case update_result idempKey Failed (fmap_of_list [(''error'', JStr msg)]) (env 3 s3) of
             Inr s5 \<Rightarrow>
               \<lparr>reply = Http 500 (JObj (fmap_of_list [(''error'', JStr ''Payment failed''),
                                                       (''detail'', JStr msg)])),
                polls = 0, final = s5\<rparr>
           | Inl msg' \<Rightarrow>
               \<lparr>reply = Http 500 (JObj (fmap_of_list [(''error'', JStr ''Server error''),
                                                       (''detail'', JStr msg')])),
                polls = 0, final = env 3 s3\<rparr>))"

text \<open>
  The handler. An exception that leaves the claim or the loop is caught by the outer
  \<open>catch\<close>, which answers 500 "Server error" with its message.
\<close>

definition pay :: "interleaving \<Rightarrow> string option \<Rightarrow> pay_req \<Rightarrow> db \<Rightarrow> outcome" where
  "pay env fault req s =
     (if falsy_text (idempotency_key req)
      then \<lparr>reply = Http 400 (JObj (fmap_of_list [(''error'', JStr ''Missing Idempotency-Key header'')])),
            polls = 0, final = s\<rparr>
      else if falsy (body_user_id req) \<or> falsy (body_amount req)
      then \<lparr>reply = Http 400 (JObj (fmap_of_list [(''error'', JStr ''Missing user_id or amount'')])),
            polls = 0, final = s\<rparr>
      else
        (let idempKey = the (idempotency_key req);
             s1 = env 0 s
         in case select_key idempKey s1 of
              [] \<Rightarrow> \<lparr>reply = Http 400 (JObj (fmap_of_list
                               [(''error'', JStr ''Unknown idempotency key. Acquire a key first.'')])),
                     polls = 0, final = s1\<rparr>
            | row # _ \<Rightarrow>
                if status row = Completed
                then \<lparr>reply = Http 200 (from_column (response row)), polls = 0, final = s1\<rparr>
                else
                  (case tryClaimKey idempKey (body_user_id req) (env 1 s1) of
                     Inl msg \<Rightarrow>
                       \<lparr>reply = Http 500 (JObj (fmap_of_list [(''error'', JStr ''Server error''),
                                                               (''detail'', JStr msg)])),
                        polls = 0, final = env 1 s1\<rparr>
                   | Inr (True, s2) \<Rightarrow>
                       claimed_branch env fault idempKey (the (body_user_id req))
                         (the (body_amount req)) s2
                   | Inr (False, s2) \<Rightarrow>
                       (case short_poll env idempKey 2 0 s2 of
                          (Inr r, n, s3) \<Rightarrow> \<lparr>reply = r, polls = n, final = s3\<rparr>
                        | (Inl msg, n, s3) \<Rightarrow>
                            \<lparr>reply = Http 500 (JObj (fmap_of_list [(''error'', JStr ''Server error''),
                                                                    (''detail'', JStr msg)])),
                             polls = n, final = s3\<rparr>))))"

subsection \<open>GET /idempotency/:key\<close>

definition null_or :: "('a \<Rightarrow> json) \<Rightarrow> 'a option \<Rightarrow> json" where
  "null_or f v = (case v of None \<Rightarrow> JNull | Some x \<Rightarrow> f x)"

definition row_json :: "key_row \<Rightarrow> json" where
  "row_json r =
     JObj (fmap_of_list
       [(''key'', JStr (key r)),
        (''status'', JStr (status_text (status r))),
        (''response'', from_column (response r)),
        (''user_id'', null_or JNum (user_id r)),
        (''operation'', null_or JStr (operation r)),
        (''reserved_until'', null_or JTime (reserved_until r)),
        (''created_at'', JTime (created_at r)),
        (''updated_at'', JTime (updated_at r))])"

definition get_idempotency :: "string \<Rightarrow> db \<Rightarrow> http_response" where
  "get_idempotency k s =
     (case select_key k s of
        [] \<Rightarrow> Http 404 (JObj (fmap_of_list [(''error'', JStr ''not found'')]))
      | r # _ \<Rightarrow> Http 200 (row_json r))"

text \<open>The member \<open>name\<close> of a JSON object.\<close>

definition member :: "string \<Rightarrow> json \<Rightarrow> json option" where
  "member name v = (case v of JObj fs \<Rightarrow> fmlookup fs name | _ \<Rightarrow> None)"

section \<open>Executions\<close>

text \<open>The clock moves by \<open>d\<close>.\<close>

definition tick :: "int \<Rightarrow> db \<Rightarrow> db" where
  "tick d s = s\<lparr>now := now s + d\<rparr>"

text \<open>
  Some record meets the conditions of the claim for a caller with owner \<open>uid\<close>, in
  words: a record of the key exists, it is reserved, its owner is absent or is the
  caller's (the caller's owner is what the query is given, \<open>user_id || null\<close>), and its
  \<open>reserved_until\<close> is absent or still ahead.
\<close>

definition admits :: "string \<Rightarrow> int option \<Rightarrow> db \<Rightarrow> bool" where
  "admits k uid s \<longleftrightarrow>
     (\<exists>r \<in> set (idempotency_keys s).
        key r = k \<and> status r = Reserved
        \<and> (user_id r = None \<or> user_id r = or_null uid)
        \<and> (case reserved_until r of None \<Rightarrow> True | Some u \<Rightarrow> now s < u))"

text \<open>The caller's id can be compared with the column, and some record meets the conditions.\<close>

definition may_claim :: "string \<Rightarrow> int option \<Rightarrow> db \<Rightarrow> bool" where
  "may_claim k uid s \<longleftrightarrow> binds (or_null uid) \<and> admits k uid s"

text \<open>
  Claim attempts on one key, one after the other (each is a single UPDATE, so every
  interleaving of concurrent attempts is such a sequence). An attempt \<open>(d, uid)\<close> runs
  \<open>d\<close> after the one before it, for the caller \<open>uid\<close>; its result is what the call
  returned, or the message of what it threw.
\<close>

fun claim_seq ::
  "string \<Rightarrow> (int \<times> int option) list \<Rightarrow> db \<Rightarrow> (string + bool) list \<times> db" where
  "claim_seq k [] s = ([], s)"
| "claim_seq k ((d, uid) # atts) s =
     (case tryClaimKey k uid (tick d s) of
        Inl msg \<Rightarrow> (case claim_seq k atts (tick d s) of (bs, s2) \<Rightarrow> (Inl msg # bs, s2))
      | Inr (b, s1) \<Rightarrow> (case claim_seq k atts s1 of (bs, s2) \<Rightarrow> (Inr b # bs, s2)))"

text \<open>Some attempt of the sequence meets the conditions at the time it runs.\<close>

fun some_may_claim :: "string \<Rightarrow> (int \<times> int option) list \<Rightarrow> db \<Rightarrow> bool" where
  "some_may_claim k [] s = False"
| "some_may_claim k ((d, uid) # atts) s =
     (may_claim k uid (tick d s) \<or> some_may_claim k atts (tick d s))"

text \<open>
  The system as a whole: the database and the keys whose claim has been won by a
  request that has not yet written its result (one entry for each such request). The
  terminal write stands in the handler under \<open>if (claimed)\<close>, so only a request in
  that list performs it, and it does so once. A statement that throws writes nothing
  and is no step.
\<close>

type_synonym system = "db \<times> string list"

inductive step :: "system \<Rightarrow> system \<Rightarrow> bool" where
  issue: "step (s, c) (snd (post_idempotency_keys ttl k date_now uid opn s), c)"
| claim: "tryClaimKey k uid s = Inr (b, s') \<Longrightarrow> step (s, c) (s', if b then k # c else c)"
| complete: "k \<in> set c \<Longrightarrow> step (s, c) (record_result k Completed payload s, remove1 k c)"
| fail: "k \<in> set c \<Longrightarrow>
     step (s, c) (record_result k Failed (fmap_of_list [(''error'', JStr msg)]) s, remove1 k c)"
| sweep: "step (s, c) (snd (cleanup s), c)"
| clock: "step (s, c) (tick d s, c)"

inductive reachable :: "system \<Rightarrow> bool" where
  init: "reachable (\<lparr>idempotency_keys = [], payments = [], payments_id_seq = 0, now = t\<rparr>, [])"
| later: "reachable \<sigma> \<Longrightarrow> step \<sigma> \<sigma>' \<Longrightarrow> reachable \<sigma>'"

definition terminal :: "key_status \<Rightarrow> bool" where
  "terminal st \<longleftrightarrow> st = Completed \<or> st = Failed"

text \<open>
  The database that the short-poll loop reads at its read number \<open>j\<close>, when the loop
  starts at statement \<open>i\<close> on the database \<open>s\<close> and has not left before.
\<close>

fun read_state :: "interleaving \<Rightarrow> nat \<Rightarrow> nat \<Rightarrow> db \<Rightarrow> db" where
  "read_state env i 0 s = env i s"
| "read_state env i (Suc j) s = read_state env (Suc i) j (env i s)"

text \<open>What a read of the key's status finds.\<close>

datatype observation = Absent | Seen key_status json

definition observe :: "string \<Rightarrow> db \<Rightarrow> observation" where
  "observe k s =
     (case select_key k s of
        [] \<Rightarrow> Absent
      | r # _ \<Rightarrow> Seen (status r) (from_column (response r)))"

definition in_flight :: "observation \<Rightarrow> bool" where
  "in_flight ob = (case ob of Absent \<Rightarrow> False | Seen st _ \<Rightarrow> \<not> terminal st)"

text \<open>
  Nobody else writes while the handler runs: between its statements the two tables and
  the payment sequence stay as they are and the clock does not go back.
\<close>

definition quiet :: "interleaving \<Rightarrow> bool" where
  "quiet env \<longleftrightarrow>
     (\<forall>i s. idempotency_keys (env i s) = idempotency_keys s
          \<and> payments (env i s) = payments s
          \<and> payments_id_seq (env i s) = payments_id_seq s
          \<and> now s \<le> now (env i s))"

text \<open>Time passes by \<open>d i\<close> before the statement \<open>i\<close> of the handler, and nothing else happens.\<close>

definition time_passes :: "(nat \<Rightarrow> int) \<Rightarrow> interleaving" where
  "time_passes d i s = tick (d i) s"

text \<open>
  The same request sent again and again, each run with its own interleaving and its own
  fate of the payment transaction.
\<close>

fun pay_repeated ::
  "(interleaving \<times> string option) list \<Rightarrow> pay_req \<Rightarrow> db \<Rightarrow> http_response list \<times> db" where
  "pay_repeated [] req s = ([], s)"
| "pay_repeated ((env, fault) # runs) req s =
     (let out = pay env fault req s
      in case pay_repeated runs req (final out) of (rs, s') \<Rightarrow> (reply out # rs, s'))"

subsection \<open>Notions used in the statements\<close>

text \<open>No row of the key \<open>k\<close> is reserved.\<close>

definition none_reserved :: "string \<Rightarrow> db \<Rightarrow> bool" where
  "none_reserved k s \<longleftrightarrow> (\<forall>r \<in> set (idempotency_keys s). key r = k \<longrightarrow> status r \<noteq> Reserved)"

text \<open>
  The request passes the handler's two checks of its input and presents the key \<open>k\<close>:
  the header is there and not empty, and the body carries a \<open>user_id\<close> and an
  \<open>amount\<close> that are not falsy.
\<close>

definition presents :: "pay_req \<Rightarrow> string \<Rightarrow> bool" where
  "presents req k \<longleftrightarrow>
     idempotency_key req = Some k \<and> k \<noteq> []
     \<and> \<not> falsy (body_user_id req) \<and> \<not> falsy (body_amount req)"

text \<open>The reads that are still to come when \<open>waited\<close> has the value \<open>w\<close>.\<close>

definition reads_left :: "int \<Rightarrow> nat" where
  "reads_left w = nat ((maxWaitMs - w + intervalMs - 1) div intervalMs)"

text \<open>The two tables and the payment sequence of \<open>s'\<close> are those of \<open>s\<close>.\<close>

definition same_tables :: "db \<Rightarrow> db \<Rightarrow> bool" where
  "same_tables s s' \<longleftrightarrow>
     idempotency_keys s' = idempotency_keys s
     \<and> payments s' = payments s
     \<and> payments_id_seq s' = payments_id_seq s"

subsection \<open>The invariant of the system\<close>

text \<open>Some record of the key \<open>k\<close> is \<open>processing\<close>.\<close>

definition processing :: "string \<Rightarrow> key_row list \<Rightarrow> bool" where
  "processing k rows \<longleftrightarrow> (\<exists>r \<in> set rows. key r = k \<and> status r = Processing)"

text \<open>
  What every reachable state satisfies: the primary key holds, no key has two winners at
  work, each winner at work finds its key \<open>processing\<close>, and a record that is not
  terminal has no response.
\<close>

definition sys_inv :: "system \<Rightarrow> bool" where
  "sys_inv \<sigma> \<longleftrightarrow>
     primary_key (fst \<sigma>)
     \<and> distinct (snd \<sigma>)
     \<and> (\<forall>k \<in> set (snd \<sigma>). processing k (idempotency_keys (fst \<sigma>)))
     \<and> (\<forall>r \<in> set (idempotency_keys (fst \<sigma>)). \<not> terminal (status r) \<longrightarrow> response r = None)"

subsection \<open>Example databases\<close>

definition reserved_row :: "string \<Rightarrow> int option \<Rightarrow> int option \<Rightarrow> key_row" where
  "reserved_row k uid until =
     \<lparr>key = k, status = Reserved, response = None, user_id = uid, operation = None,
      reserved_until = until, created_at = 0, updated_at = 0\<rparr>"

definition db_of :: "key_row list \<Rightarrow> int \<Rightarrow> db" where
  "db_of rows t = \<lparr>idempotency_keys = rows, payments = [], payments_id_seq = 0, now = t\<rparr>"

definition completed_row :: "string \<Rightarrow> (string, json) fmap \<Rightarrow> key_row" where
  "completed_row k payload =
     (reserved_row k None (Some 86400000))\<lparr>status := Completed, response := Some (JObj payload)\<rparr>"

definition failed_row :: "string \<Rightarrow> string \<Rightarrow> key_row" where
  "failed_row k msg =
     (reserved_row k None (Some 86400000))
       \<lparr>status := Failed, response := Some (JObj (fmap_of_list [(''error'', JStr msg)]))\<rparr>"

text \<open>The sweeper runs before the handler's statement 2, the first read of the loop.\<close>

definition sweeps_at_2 :: interleaving where
  "sweeps_at_2 i s = (if i = 2 then snd (cleanup s) else s)"

text \<open>Another executor records the result of the key before the handler's statement 5.\<close>

definition completes_at_5 :: interleaving where
  "completes_at_5 i s =
     (if i = 5 then record_result ''k1'' Completed (fmap_of_list [(''success'', JBool True)]) s
      else s)"

text \<open>A request of user 7 for the amount 100.\<close>

definition pay_7_100 :: "string \<Rightarrow> pay_req" where
  "pay_7_100 k = \<lparr>idempotency_key = Some k, body_user_id = Some 7, body_amount = Some 100\<rparr>"

section \<open>The primary key and the claim\<close>

lemmas example_defs = reserved_row_def db_of_def primary_key_def

lemmas claim_defs = tryClaimKey_def claim_update_def claim_where_def sql_eq_def sql_gt_def
  or_null_def falsy_def tick_def may_claim_def admits_def binds_def INT_ok_def

lemma filter_key_le_one:
  "distinct (map key rows) \<Longrightarrow> length (filter (\<lambda>r. key r = k) rows) \<le> 1"
proof (induction rows)
  case Nil
  then show ?case by simp
next
  case (Cons a rows)
  show ?case
  proof (cases "key a = k")
    case True
    have "key a \<notin> key ` set rows"
      using Cons.prems by simp
    then have "\<forall>r \<in> set rows. key r \<noteq> k"
      using True by (metis imageI)
    then have "filter (\<lambda>r. key r = k) rows = []"
      by (simp add: filter_empty_conv)
    with True show ?thesis by simp
  next
    case False
    then show ?thesis using Cons by simp
  qed
qed

lemma select_key_cases:
  assumes "primary_key s"
  shows "select_key k s = [] \<or> (\<exists>r. select_key k s = [r])"
proof -
  have "length (select_key k s) \<le> 1"
    using assms filter_key_le_one [of "idempotency_keys s" k]
    by (simp add: primary_key_def select_key_def)
  then show ?thesis
    by (cases "select_key k s") auto
qed

lemma filter_sub_key:
  assumes "distinct (map key rows)" and "\<And>r. P r \<Longrightarrow> key r = k"
  shows "length (filter P rows) \<le> 1"
proof -
  have "filter P rows = filter P (filter (\<lambda>r. key r = k) rows)"
    using assms(2) by (auto simp: filter_filter intro!: filter_cong)
  then have "length (filter P rows) \<le> length (filter (\<lambda>r. key r = k) rows)"
    by (metis length_filter_le)
  then show ?thesis
    using filter_key_le_one [OF assms(1), of k] by simp
qed

lemma claim_where_iff:
  "claim_where k (or_null uid) t r \<longleftrightarrow>
     key r = k \<and> status r = Reserved
     \<and> (user_id r = None \<or> user_id r = or_null uid)
     \<and> (case reserved_until r of None \<Rightarrow> True | Some u \<Rightarrow> t < u)"
  by (auto simp: claim_where_def sql_eq_def sql_gt_def split: option.splits)

lemma admits_iff:
  "admits k uid s \<longleftrightarrow> (\<exists>r \<in> set (idempotency_keys s). claim_where k (or_null uid) (now s) r)"
  unfolding admits_def claim_where_iff ..

lemma fst_claim_update:
  assumes "primary_key s"
  shows "fst (claim_update k (or_null uid) s) = admits k uid s"
proof -
  let ?P = "claim_where k (or_null uid) (now s)"
  have le: "length (filter ?P (idempotency_keys s)) \<le> 1"
    using assms by (intro filter_sub_key [where k = k]) (auto simp: primary_key_def claim_where_def)
  have "(length (filter ?P (idempotency_keys s)) = 1) = (filter ?P (idempotency_keys s) \<noteq> [])"
    using le by (cases "filter ?P (idempotency_keys s)") auto
  also have "\<dots> = (\<exists>r \<in> set (idempotency_keys s). ?P r)"
    by (simp add: filter_empty_conv)
  finally show ?thesis
    by (simp add: claim_update_def Let_def admits_iff)
qed

lemma map_if_key:
  assumes "distinct (map key rows)" and "r0 \<in> set rows" and "P r0" and "\<And>r. P r \<Longrightarrow> key r = k"
  shows "map (\<lambda>r. if P r then f r else r) rows = map (\<lambda>r. if key r = k then f r else r) rows"
proof (rule map_cong [OF refl])
  fix r assume r: "r \<in> set rows"
  have "key r = k \<Longrightarrow> r = r0"
    using assms r by (metis distinct_map inj_onD)
  then show "(if P r then f r else r) = (if key r = k then f r else r)"
    using assms(3,4) by auto
qed

lemma snd_claim_update_won:
  assumes "primary_key s" and "admits k uid s"
  shows "snd (claim_update k (or_null uid) s) =
           s\<lparr>idempotency_keys :=
                map (\<lambda>r. if key r = k then r\<lparr>status := Processing, updated_at := now s\<rparr> else r)
                    (idempotency_keys s)\<rparr>"
proof -
  from assms(2) obtain r0 where r0: "r0 \<in> set (idempotency_keys s)"
    "claim_where k (or_null uid) (now s) r0"
    by (auto simp: admits_iff)
  show ?thesis
    using map_if_key [where P = "claim_where k (or_null uid) (now s)" and k = k
          and f = "\<lambda>r. r\<lparr>status := Processing, updated_at := now s\<rparr>",
        OF assms(1)[unfolded primary_key_def] r0]
    by (simp add: claim_update_def Let_def claim_where_def)
qed

lemma snd_claim_update_lost:
  assumes "\<not> admits k uid s"
  shows "snd (claim_update k (or_null uid) s) = s"
proof -
  have "map (\<lambda>r. if claim_where k (or_null uid) (now s) r
                  then r\<lparr>status := Processing, updated_at := now s\<rparr> else r) (idempotency_keys s)
        = idempotency_keys s"
    using assms by (auto simp: admits_iff intro: map_idI)
  then show ?thesis
    by (simp add: claim_update_def Let_def)
qed

lemma claim_update_lost:
  assumes "\<not> admits k uid s"
  shows "claim_update k (or_null uid) s = (False, s)"
proof -
  have "filter (claim_where k (or_null uid) (now s)) (idempotency_keys s) = []"
    using assms by (auto simp: admits_iff filter_empty_conv)
  then have "fst (claim_update k (or_null uid) s) = False"
    by (simp add: claim_update_def Let_def)
  then show ?thesis
    using snd_claim_update_lost [OF assms] by (simp add: prod_eq_iff)
qed

lemma idempotency_keys_tick: "idempotency_keys (tick d s) = idempotency_keys s"
  by (simp add: tick_def)

lemma none_reserved_admits: "none_reserved k s \<Longrightarrow> \<not> admits k uid (tick d s)"
  unfolding none_reserved_def admits_def idempotency_keys_tick by blast

lemma none_reserved_tick: "none_reserved k (tick d s) = none_reserved k s"
  unfolding none_reserved_def idempotency_keys_tick ..

lemma primary_key_tick: "primary_key (tick d s) = primary_key s"
  unfolding primary_key_def idempotency_keys_tick ..

lemma tryClaimKey_binds:
  "binds (or_null uid) \<Longrightarrow> tryClaimKey k uid s = Inr (claim_update k (or_null uid) s)"
  by (cases "or_null uid") (simp_all add: tryClaimKey_def binds_def)

lemma binds_iff: "binds p \<longleftrightarrow> (\<forall>n. p = Some n \<longrightarrow> - 2147483648 \<le> n \<and> n \<le> 2147483647)"
  by (cases p) (simp_all add: binds_def INT_ok_def)

lemma tryClaimKey_refused:
  "\<not> binds (or_null uid) \<Longrightarrow> \<exists>n. or_null uid = Some n \<and> tryClaimKey k uid s = Inl (out_of_range n)"
  by (cases "or_null uid") (simp_all add: tryClaimKey_def binds_def)

lemma tryClaimKey_Inr:
  assumes "tryClaimKey k uid s = Inr (b, s')"
  shows "binds (or_null uid)" and "claim_update k (or_null uid) s = (b, s')"
  using assms by (cases "or_null uid"; simp add: tryClaimKey_def binds_def split: if_splits)+

lemma tryClaimKey_lost:
  assumes "binds (or_null uid)" and "\<not> admits k uid s"
  shows "tryClaimKey k uid s = Inr (False, s)"
  unfolding tryClaimKey_binds [OF assms(1)] claim_update_lost [OF assms(2)] ..

lemma tryClaimKey_won:
  assumes "primary_key s" and "may_claim k uid s"
  shows "tryClaimKey k uid s = Inr (True, snd (claim_update k (or_null uid) s))"
proof -
  have b: "binds (or_null uid)" and a: "admits k uid s"
    using assms(2) by (simp_all add: may_claim_def)
  have "fst (claim_update k (or_null uid) s)"
    using fst_claim_update [OF assms(1), of k uid] a by simp
  then show ?thesis
    unfolding tryClaimKey_binds [OF b] by (simp add: prod_eq_iff)
qed

lemma claim_seq_none_reserved:
  "none_reserved k s \<Longrightarrow> filter (\<lambda>b. b = Inr True) (fst (claim_seq k atts s)) = []"
proof (induction atts arbitrary: s)
  case Nil
  then show ?case by simp
next
  case (Cons a atts)
  obtain d uid where a: "a = (d, uid)" by (cases a)
  have nr: "none_reserved k (tick d s)"
    using Cons.prems by (simp add: none_reserved_tick)
  show ?case
  proof (cases "binds (or_null uid)")
    case True
    have lost: "tryClaimKey k uid (tick d s) = Inr (False, tick d s)"
      using True Cons.prems by (intro tryClaimKey_lost none_reserved_admits)
    from Cons.IH [OF nr] show ?thesis
      by (simp add: a lost case_prod_beta)
  next
    case False
    then obtain n where "tryClaimKey k uid (tick d s) = Inl (out_of_range n)"
      using tryClaimKey_refused [of uid k "tick d s"] by blast
    with Cons.IH [OF nr] show ?thesis
      by (simp add: a case_prod_beta)
  qed
qed

lemma claimed_rows_not_reserved:
  "\<forall>r' \<in> set (map (\<lambda>r. if key r = k then r\<lparr>status := Processing, updated_at := t\<rparr> else r) rows).
     key r' = k \<longrightarrow> status r' \<noteq> Reserved"
  by (induction rows) simp_all

lemma none_reserved_after_claim:
  assumes "primary_key s" and "admits k uid s"
  shows "none_reserved k (snd (claim_update k (or_null uid) s))"
proof -
  have eq: "snd (claim_update k (or_null uid) s) = s\<lparr>idempotency_keys :=
                map (\<lambda>r. if key r = k then r\<lparr>status := Processing, updated_at := now s\<rparr> else r)
                    (idempotency_keys s)\<rparr>"
    by (rule snd_claim_update_won [OF assms])
  show ?thesis
    unfolding eq none_reserved_def using claimed_rows_not_reserved [of k "now s" "idempotency_keys s"]
    by (simp del: set_map)
qed

text \<open>
  C2. For every key, every database that respects the primary key and every caller
  whose id, when there is one, lies within INT, from -2147483648 to 2147483647 (an id
  outside INT makes the query throw before any update runs), a single call of \<open>tryClaimKey\<close> returns true exactly when a
  record of the key exists, its status is \<open>reserved\<close>, its \<open>user_id\<close> is absent or
  equals the caller's owner (the parameter the query is given, \<open>user_id || null\<close>), and
  its \<open>reserved_until\<close> is absent or strictly after \<open>now()\<close>. It then sets the status
  of that record to \<open>processing\<close> and its \<open>updated_at\<close> to \<open>now()\<close> and changes nothing
  else; in every other case, an expired reservation among them, it returns false and
  leaves the database as it was.
\<close>

theorem tryClaimKey_iff:
  assumes "primary_key s"
    and "\<forall>n. or_null uid = Some n \<longrightarrow> - 2147483648 \<le> n \<and> n \<le> 2147483647"
  shows "\<exists>b s'. tryClaimKey k uid s = Inr (b, s')
       \<and> (b \<longleftrightarrow>
           (\<exists>r \<in> set (idempotency_keys s).
              key r = k \<and> status r = Reserved
              \<and> (user_id r = None \<or> user_id r = or_null uid)
              \<and> (case reserved_until r of None \<Rightarrow> True | Some u \<Rightarrow> now s < u)))
       \<and> (b \<longrightarrow>
            s' = s\<lparr>idempotency_keys :=
                     map (\<lambda>r. if key r = k then r\<lparr>status := Processing, updated_at := now s\<rparr> else r)
                         (idempotency_keys s)\<rparr>)
       \<and> (\<not> b \<longrightarrow> s' = s)"
proof -
  let ?b = "fst (claim_update k (or_null uid) s)"
  let ?s' = "snd (claim_update k (or_null uid) s)"
  have "binds (or_null uid)"
    using assms(2) by (simp add: binds_iff)
  then have run: "tryClaimKey k uid s = Inr (?b, ?s')"
    by (simp add: tryClaimKey_binds)
  have b: "?b = admits k uid s"
    by (rule fst_claim_update [OF assms(1)])
  have "(?b \<longleftrightarrow>
           (\<exists>r \<in> set (idempotency_keys s).
              key r = k \<and> status r = Reserved
              \<and> (user_id r = None \<or> user_id r = or_null uid)
              \<and> (case reserved_until r of None \<Rightarrow> True | Some u \<Rightarrow> now s < u)))
       \<and> (?b \<longrightarrow>
            ?s' = s\<lparr>idempotency_keys :=
                     map (\<lambda>r. if key r = k then r\<lparr>status := Processing, updated_at := now s\<rparr> else r)
                         (idempotency_keys s)\<rparr>)
       \<and> (\<not> ?b \<longrightarrow> ?s' = s)"
    using snd_claim_update_won [OF assms(1), of k uid] snd_claim_update_lost [of k uid s]
    unfolding b by (auto simp: admits_def)
  with run show ?thesis
    by blast
qed

theorem tryClaimKey_iff_witness:
  "tryClaimKey ''k1'' (Some 7) (db_of [reserved_row ''k1'' (Some 7) (Some 100)] 50)
       = Inr (True, db_of [(reserved_row ''k1'' (Some 7) (Some 100))\<lparr>status := Processing, updated_at := 50\<rparr>] 50)
   \<and> tryClaimKey ''k1'' (Some 8) (db_of [reserved_row ''k1'' (Some 7) (Some 100)] 50)
       = Inr (False, db_of [reserved_row ''k1'' (Some 7) (Some 100)] 50)"
proof -
  let ?s = "db_of [reserved_row ''k1'' (Some 7) (Some 100)] 50"
  have pk: "primary_key ?s"
    by (simp add: example_defs)
  have b7: "\<forall>n. or_null (Some 7) = Some n \<longrightarrow> - 2147483648 \<le> n \<and> n \<le> 2147483647"
    and b8: "\<forall>n. or_null (Some 8) = Some n \<longrightarrow> - 2147483648 \<le> n \<and> n \<le> 2147483647"
    by (simp_all add: or_null_def falsy_def)
  from tryClaimKey_iff [OF pk b7, of "''k1''"] obtain b s' where
    run: "tryClaimKey ''k1'' (Some 7) ?s = Inr (b, s')"
    and b: "b \<longleftrightarrow> (\<exists>r \<in> set (idempotency_keys ?s).
              key r = ''k1'' \<and> status r = Reserved
              \<and> (user_id r = None \<or> user_id r = or_null (Some 7))
              \<and> (case reserved_until r of None \<Rightarrow> True | Some u \<Rightarrow> now ?s < u))"
    and s': "b \<longrightarrow> s' = ?s\<lparr>idempotency_keys :=
                     map (\<lambda>r. if key r = ''k1'' then r\<lparr>status := Processing, updated_at := now ?s\<rparr> else r)
                         (idempotency_keys ?s)\<rparr>"
    by blast
  from tryClaimKey_iff [OF pk b8, of "''k1''"] obtain b2 s2 where
    run2: "tryClaimKey ''k1'' (Some 8) ?s = Inr (b2, s2)"
    and b2: "b2 \<longleftrightarrow> (\<exists>r \<in> set (idempotency_keys ?s).
              key r = ''k1'' \<and> status r = Reserved
              \<and> (user_id r = None \<or> user_id r = or_null (Some 8))
              \<and> (case reserved_until r of None \<Rightarrow> True | Some u \<Rightarrow> now ?s < u))"
    and s2: "\<not> b2 \<longrightarrow> s2 = ?s"
    by blast
  have "b" and "\<not> b2"
    using b b2 by (simp_all add: example_defs or_null_def falsy_def)
  then show ?thesis
    using run run2 s' s2 by (simp add: example_defs)
qed

section \<open>Sequences of claim attempts\<close>

text \<open>
  C1, as stated, asks for exactly one successful attempt on a reserved key. On a reserved
  key whose \<open>reserved_until\<close> has passed, no attempt succeeds.
\<close>

theorem claim_seq_expired_counterexample:
  "map status (select_key ''k1'' (db_of [reserved_row ''k1'' None (Some 100)] 200)) = [Reserved]
   \<and> fst (claim_seq ''k1'' [(0, Some 7), (5, Some 8)] (db_of [reserved_row ''k1'' None (Some 100)] 200))
       = [Inr False, Inr False]"
  by (simp add: select_key_def example_defs claim_defs)

text \<open>
  C1, amended. In every sequence of claim attempts on one key, of any length and by any
  callers, at most one attempt returns true: exactly one when some attempt meets the
  owner and expiry conditions at the time it runs (with a caller id that the INT column
  can be compared with), and none otherwise. Every other attempt returns false or
  throws.
\<close>

theorem claim_seq_at_most_one:
  assumes "primary_key s"
  shows "length (filter (\<lambda>b. b = Inr True) (fst (claim_seq k atts s)))
           = (if some_may_claim k atts s then 1 else 0)"
  using assms
proof (induction atts arbitrary: s)
  case Nil
  then show ?case by simp
next
  case (Cons a atts)
  obtain d uid where a: "a = (d, uid)" by (cases a)
  let ?s0 = "tick d s"
  have pk: "primary_key ?s0"
    using Cons.prems by (simp add: primary_key_tick)
  show ?case
  proof (cases "may_claim k uid ?s0")
    case True
    let ?s1 = "snd (claim_update k (or_null uid) ?s0)"
    have won: "tryClaimKey k uid ?s0 = Inr (True, ?s1)"
      using pk True by (rule tryClaimKey_won)
    have "admits k uid ?s0"
      using True by (simp add: may_claim_def)
    then have "none_reserved k ?s1"
      by (rule none_reserved_after_claim [OF pk])
    then have "filter (\<lambda>b. b = Inr True) (fst (claim_seq k atts ?s1)) = []"
      by (rule claim_seq_none_reserved)
    then show ?thesis
      using True by (simp add: a won case_prod_beta)
  next
    case False
    show ?thesis
    proof (cases "binds (or_null uid)")
      case binds: True
      then have "\<not> admits k uid ?s0"
        using False by (simp add: may_claim_def)
      with binds have lost: "tryClaimKey k uid ?s0 = Inr (False, ?s0)"
        by (rule tryClaimKey_lost)
      show ?thesis
        using Cons.IH [OF pk] False by (simp add: a lost case_prod_beta)
    next
      case False
      then obtain n where thrown: "tryClaimKey k uid ?s0 = Inl (out_of_range n)"
        using tryClaimKey_refused [of uid k ?s0] by blast
      show ?thesis
        using Cons.IH [OF pk] \<open>\<not> may_claim k uid ?s0\<close> by (simp add: a thrown case_prod_beta)
    qed
  qed
qed

theorem claim_seq_at_most_one_witness:
  "primary_key (db_of [reserved_row ''k1'' None (Some 100)] 50)
   \<and> some_may_claim ''k1'' [(0, Some 2147483648), (0, Some 7), (0, Some 8), (60, Some 7)]
        (db_of [reserved_row ''k1'' None (Some 100)] 50)
   \<and> length (filter (\<lambda>b. b = Inr True)
        (fst (claim_seq ''k1'' [(0, Some 2147483648), (0, Some 7), (0, Some 8), (60, Some 7)]
                (db_of [reserved_row ''k1'' None (Some 100)] 50)))) = 1
   \<and> fst (claim_seq ''k1'' [(0, Some 2147483648), (0, Some 7), (0, Some 8), (60, Some 7)]
                (db_of [reserved_row ''k1'' None (Some 100)] 50))
       = [Inl (out_of_range 2147483648), Inr True, Inr False, Inr False]"
proof -
  let ?s = "db_of [reserved_row ''k1'' None (Some 100)] 50"
  let ?atts = "[(0, Some 2147483648), (0, Some 7), (0, Some 8), (60, Some 7)]"
  have pk: "primary_key ?s"
    by (simp add: example_defs)
  have some: "some_may_claim ''k1'' ?atts ?s"
    by (simp add: example_defs claim_defs)
  have run: "fst (claim_seq ''k1'' ?atts ?s) = [Inl (out_of_range 2147483648), Inr True, Inr False, Inr False]"
    by (simp add: example_defs claim_defs)
  show ?thesis
    using claim_seq_at_most_one [OF pk, of "''k1''" ?atts] pk some run
    by simp
qed

section \<open>The sweeper\<close>

text \<open>
  C8. \<open>cleanup\<close> deletes exactly the records whose status is \<open>reserved\<close> and whose
  \<open>reserved_until\<close> is before \<open>now()\<close>, and its count is their number. Every other
  record stays in the table as it was: each record that is not \<open>reserved\<close>, whatever
  its \<open>reserved_until\<close>, and each record whose \<open>reserved_until\<close> is absent or has
  not passed. The payments and the clock are not touched.
\<close>

theorem cleanup_exact:
  assumes "cleanup s = (n, s')"
  shows "idempotency_keys s' =
           filter (\<lambda>r. \<not> (status r = Reserved \<and> (\<exists>u. reserved_until r = Some u \<and> u < now s)))
                  (idempotency_keys s)
       \<and> n = length (filter (\<lambda>r. status r = Reserved \<and> (\<exists>u. reserved_until r = Some u \<and> u < now s))
                            (idempotency_keys s))
       \<and> (\<forall>r \<in> set (idempotency_keys s). status r \<noteq> Reserved \<longrightarrow> r \<in> set (idempotency_keys s'))
       \<and> (\<forall>r \<in> set (idempotency_keys s).
             (case reserved_until r of None \<Rightarrow> True | Some u \<Rightarrow> now s \<le> u)
             \<longrightarrow> r \<in> set (idempotency_keys s'))
       \<and> payments s' = payments s \<and> payments_id_seq s' = payments_id_seq s \<and> now s' = now s"
proof -
  have w: "cleanup_where (now s) = (\<lambda>r. status r = Reserved \<and> (\<exists>u. reserved_until r = Some u \<and> u < now s))"
    by (auto simp: cleanup_where_def sql_lt_def fun_eq_iff split: option.splits)
  have n: "n = length (filter (cleanup_where (now s)) (idempotency_keys s))"
    and s': "s' = s\<lparr>idempotency_keys := filter (\<lambda>r. \<not> cleanup_where (now s) r) (idempotency_keys s)\<rparr>"
    using assms by (simp_all add: cleanup_def)
  show ?thesis
    unfolding n s' w by (auto split: option.splits)
qed

theorem cleanup_exact_witness:
  "cleanup (db_of [reserved_row ''a'' None (Some 100),
                   reserved_row ''b'' None (Some 300),
                   (reserved_row ''c'' None (Some 100))\<lparr>status := Processing\<rparr>,
                   (reserved_row ''d'' None (Some 100))\<lparr>status := Completed, response := Some (JNum 1)\<rparr>,
                   reserved_row ''e'' None None] 200)
   = (1, db_of [reserved_row ''b'' None (Some 300),
                   (reserved_row ''c'' None (Some 100))\<lparr>status := Processing\<rparr>,
                   (reserved_row ''d'' None (Some 100))\<lparr>status := Completed, response := Some (JNum 1)\<rparr>,
                   reserved_row ''e'' None None] 200)"
proof -
  let ?s = "db_of [reserved_row ''a'' None (Some 100),
                   reserved_row ''b'' None (Some 300),
                   (reserved_row ''c'' None (Some 100))\<lparr>status := Processing\<rparr>,
                   (reserved_row ''d'' None (Some 100))\<lparr>status := Completed, response := Some (JNum 1)\<rparr>,
                   reserved_row ''e'' None None] 200"
  obtain n s' where run: "cleanup ?s = (n, s')"
    by (cases "cleanup ?s")
  have n: "n = 1"
    using cleanup_exact [OF run] by (simp add: example_defs)
  have "s' = db_of [reserved_row ''b'' None (Some 300),
                   (reserved_row ''c'' None (Some 100))\<lparr>status := Processing\<rparr>,
                   (reserved_row ''d'' None (Some 100))\<lparr>status := Completed, response := Some (JNum 1)\<rparr>,
                   reserved_row ''e'' None None] 200"
    using cleanup_exact [OF run] by (simp add: example_defs)
  with n show ?thesis
    by (simp add: run)
qed

section \<open>The system: terminal records are final\<close>

lemma map_key_same: "(\<And>r. key (f r) = key r) \<Longrightarrow> map key (map f rows) = map key rows"
  by (induction rows) simp_all

lemma in_set_mapD: "r' \<in> set (map f rows) \<Longrightarrow> \<exists>r \<in> set rows. r' = f r"
  by (induction rows) auto

lemma same_key_same_row:
  assumes "distinct (map key rows)" and "r1 \<in> set rows" and "r2 \<in> set rows" and "key r1 = key r2"
  shows "r1 = r2"
  using assms by (metis distinct_map inj_onD)

lemma select_key_member:
  assumes "primary_key s" and "r \<in> set (idempotency_keys s)"
  shows "select_key (key r) s = [r]"
proof -
  have "r \<in> set (select_key (key r) s)"
    using assms(2) by (simp add: select_key_def)
  then show ?thesis
    using select_key_cases [OF assms(1), of "key r"] by auto
qed

subsection \<open>Rows after each statement\<close>

lemma rows_issue:
  "idempotency_keys (snd (post_idempotency_keys ttl k date_now uid opn s)) =
     (if \<not> TIMESTAMP_ok (date_now + ttl * 60 * 1000) \<or> \<not> binds (or_null uid)
         \<or> \<not> text_binds (or_null_text opn)
         \<or> k \<in> set (map key (idempotency_keys s))
      then idempotency_keys s
      else idempotency_keys s @
             [\<lparr>key = k, status = Reserved, response = None, user_id = or_null uid,
               operation = or_null_text opn, reserved_until = Some (date_now + ttl * 60 * 1000),
               created_at = now s, updated_at = now s\<rparr>])"
  by (simp add: post_idempotency_keys_def Let_def)

lemma rows_claim:
  "idempotency_keys (snd (claim_update k (or_null uid) s)) =
     map (\<lambda>r. if claim_where k (or_null uid) (now s) r
               then r\<lparr>status := Processing, updated_at := now s\<rparr> else r) (idempotency_keys s)"
  by (simp add: claim_update_def Let_def)

lemma rows_record:
  "idempotency_keys (record_result k st payload s) =
     map (\<lambda>r. if key r = k then r\<lparr>status := st, response := Some (JObj payload), updated_at := now s\<rparr>
               else r) (idempotency_keys s)"
  by (simp add: record_result_def)

lemma rows_cleanup:
  "idempotency_keys (snd (cleanup s)) = filter (\<lambda>r. \<not> cleanup_where (now s) r) (idempotency_keys s)"
  by (simp add: cleanup_def)

subsection \<open>The primary key is kept\<close>

lemma primary_key_issue: "primary_key s \<Longrightarrow> primary_key (snd (post_idempotency_keys ttl k date_now uid opn s))"
  unfolding primary_key_def rows_issue by simp

lemma primary_key_claim: "primary_key s \<Longrightarrow> primary_key (snd (claim_update k (or_null uid) s))"
  unfolding primary_key_def rows_claim by (subst map_key_same) simp_all

lemma primary_key_record: "primary_key s \<Longrightarrow> primary_key (record_result k st payload s)"
  unfolding primary_key_def rows_record by (subst map_key_same) simp_all

lemma primary_key_cleanup: "primary_key s \<Longrightarrow> primary_key (snd (cleanup s))"
  unfolding primary_key_def rows_cleanup by (rule distinct_map_filter)

subsection \<open>Rows that are kept\<close>

lemma kept_by_issue:
  "r \<in> set (idempotency_keys s) \<Longrightarrow> r \<in> set (idempotency_keys (snd (post_idempotency_keys ttl k date_now uid opn s)))"
  unfolding rows_issue by simp

lemma kept_by_map:
  assumes "r \<in> set rows" and "f r = r"
  shows "r \<in> set (map f rows)"
proof -
  have "f r \<in> set (map f rows)"
    using assms(1) by (rule imageI [of r "set rows" f, folded set_map])
  then show ?thesis
    using assms(2) by simp
qed

lemma kept_by_claim:
  assumes "r \<in> set (idempotency_keys s)" and "status r \<noteq> Reserved"
  shows "r \<in> set (idempotency_keys (snd (claim_update k (or_null uid) s)))"
  unfolding rows_claim using assms by (intro kept_by_map) (simp_all add: claim_where_def)

lemma kept_by_record:
  assumes "r \<in> set (idempotency_keys s)" and "key r \<noteq> k"
  shows "r \<in> set (idempotency_keys (record_result k st payload s))"
  unfolding rows_record using assms by (intro kept_by_map) simp_all

lemma kept_by_cleanup:
  assumes "r \<in> set (idempotency_keys s)" and "status r \<noteq> Reserved"
  shows "r \<in> set (idempotency_keys (snd (cleanup s)))"
  unfolding rows_cleanup using assms by (simp add: cleanup_where_def)

lemma processing_other_key:
  assumes "primary_key s" and "processing k (idempotency_keys s)"
    and "r \<in> set (idempotency_keys s)" and "status r \<noteq> Processing"
  shows "key r \<noteq> k"
proof
  assume k: "key r = k"
  from assms(2) obtain r' where r': "r' \<in> set (idempotency_keys s)" "key r' = k" "status r' = Processing"
    unfolding processing_def by blast
  have "r = r'"
    using same_key_same_row [OF assms(1)[unfolded primary_key_def] assms(3) r'(1)] k r'(2) by simp
  then show False
    using assms(4) r'(3) by simp
qed

subsection \<open>A terminal record stays as it is\<close>

lemma step_keeps_terminal:
  assumes "step (s, c) (s', c')" and "sys_inv (s, c)"
    and "r \<in> set (idempotency_keys s)" and "terminal (status r)"
  shows "r \<in> set (idempotency_keys s')"
  using assms(1)
proof (cases rule: step.cases)
  case (issue ttl k date_now uid opn)
  then show ?thesis using assms(3) by (simp add: kept_by_issue)
next
  case (claim k uid b)
  have "r \<in> set (idempotency_keys (snd (claim_update k (or_null uid) s)))"
    using assms(3,4) by (intro kept_by_claim) (auto simp: terminal_def)
  then show ?thesis using tryClaimKey_Inr(2) [OF claim(2)] by simp
next
  case (complete k payload)
  have "processing k (idempotency_keys s)" and "primary_key s"
    using assms(2) complete(3) by (simp_all add: sys_inv_def)
  then have "key r \<noteq> k"
    using assms(3,4) by (intro processing_other_key [of s]) (auto simp: terminal_def)
  then show ?thesis using complete assms(3) by (simp add: kept_by_record)
next
  case (fail k msg)
  have "processing k (idempotency_keys s)" and "primary_key s"
    using assms(2) fail(3) by (simp_all add: sys_inv_def)
  then have "key r \<noteq> k"
    using assms(3,4) by (intro processing_other_key [of s]) (auto simp: terminal_def)
  then show ?thesis using fail assms(3) by (simp add: kept_by_record)
next
  case sweep
  have "r \<in> set (idempotency_keys (snd (cleanup s)))"
    using assms(3,4) by (intro kept_by_cleanup) (auto simp: terminal_def)
  then show ?thesis using sweep by simp
next
  case (clock d)
  then show ?thesis using assms(3) by (simp add: tick_def)
qed

subsection \<open>The invariant\<close>

lemma processing_kept:
  assumes "processing k rows"
    and "\<And>r. r \<in> set rows \<Longrightarrow> status r = Processing \<Longrightarrow> r \<in> set rows'"
  shows "processing k rows'"
  using assms unfolding processing_def by blast

lemma sys_invI:
  assumes "primary_key s" and "distinct c"
    and "\<And>k. k \<in> set c \<Longrightarrow> processing k (idempotency_keys s)"
    and "\<And>r. r \<in> set (idempotency_keys s) \<Longrightarrow> \<not> terminal (status r) \<Longrightarrow> response r = None"
  shows "sys_inv (s, c)"
  unfolding sys_inv_def fst_conv snd_conv using assms by blast

lemma sys_inv_primary_key: "sys_inv (s, c) \<Longrightarrow> primary_key s"
  unfolding sys_inv_def fst_conv snd_conv by blast

lemma sys_inv_distinct: "sys_inv (s, c) \<Longrightarrow> distinct c"
  unfolding sys_inv_def fst_conv snd_conv by blast

lemma sys_inv_processing: "sys_inv (s, c) \<Longrightarrow> k \<in> set c \<Longrightarrow> processing k (idempotency_keys s)"
  unfolding sys_inv_def fst_conv snd_conv by blast

lemma sys_inv_response:
  "sys_inv (s, c) \<Longrightarrow> r \<in> set (idempotency_keys s) \<Longrightarrow> \<not> terminal (status r) \<Longrightarrow> response r = None"
  unfolding sys_inv_def fst_conv snd_conv by blast

lemma in_rows_issue:
  assumes "r \<in> set (idempotency_keys (snd (post_idempotency_keys ttl k date_now uid opn s)))"
  shows "r \<in> set (idempotency_keys s) \<or> response r = None"
proof (cases "\<not> TIMESTAMP_ok (date_now + ttl * 60 * 1000) \<or> \<not> binds (or_null uid)
         \<or> \<not> text_binds (or_null_text opn)
         \<or> k \<in> set (map key (idempotency_keys s))")
  case True
  then show ?thesis
    using assms unfolding rows_issue by (simp only: if_True simp_thms)
next
  case False
  then have "r \<in> set (idempotency_keys s) \<or>
      r = \<lparr>key = k, status = Reserved, response = None, user_id = or_null uid,
               operation = or_null_text opn, reserved_until = Some (date_now + ttl * 60 * 1000),
               created_at = now s, updated_at = now s\<rparr>"
    using assms unfolding rows_issue by (simp only: if_False set_append set_simps Un_iff insert_iff empty_iff simp_thms)
  then show ?thesis
  proof
    assume "r \<in> set (idempotency_keys s)"
    then show ?thesis ..
  next
    assume "r = \<lparr>key = k, status = Reserved, response = None, user_id = or_null uid,
               operation = or_null_text opn, reserved_until = Some (date_now + ttl * 60 * 1000),
               created_at = now s, updated_at = now s\<rparr>"
    then have "response r = None"
      by (simp only: key_row.simps)
    then show ?thesis ..
  qed
qed

lemma sys_inv_issue:
  assumes "sys_inv (s, c)"
  shows "sys_inv (snd (post_idempotency_keys ttl k date_now uid opn s), c)"
proof (rule sys_invI)
  show "primary_key (snd (post_idempotency_keys ttl k date_now uid opn s))"
    using assms by (intro primary_key_issue sys_inv_primary_key)
  show "distinct c"
    using assms by (rule sys_inv_distinct)
  show "processing k' (idempotency_keys (snd (post_idempotency_keys ttl k date_now uid opn s)))"
    if "k' \<in> set c" for k'
    using sys_inv_processing [OF assms that] by (rule processing_kept) (rule kept_by_issue)
  show "response r = None"
    if "r \<in> set (idempotency_keys (snd (post_idempotency_keys ttl k date_now uid opn s)))"
      and "\<not> terminal (status r)" for r
    using in_rows_issue [OF that(1)] sys_inv_response [OF assms _ that(2)] by blast
qed

lemma sys_inv_claim:
  assumes "sys_inv (s, c)"
  shows "sys_inv (snd (claim_update k (or_null uid) s), if fst (claim_update k (or_null uid) s) then k # c else c)"
proof (cases "admits k uid s")
  case False
  have "claim_update k (or_null uid) s = (False, s)"
    using False by (rule claim_update_lost)
  then show ?thesis
    using assms by (simp only: fst_conv snd_conv if_False)
next
  case True
  have pk: "primary_key s"
    using assms by (rule sys_inv_primary_key)
  let ?s' = "snd (claim_update k (or_null uid) s)"
  let ?f = "\<lambda>r. if claim_where k (or_null uid) (now s) r
               then r\<lparr>status := Processing, updated_at := now s\<rparr> else r"
  from True obtain r0 where r0: "r0 \<in> set (idempotency_keys s)" "claim_where k (or_null uid) (now s) r0"
    unfolding admits_iff by blast
  have r0': "key r0 = k" "status r0 = Reserved"
    using r0(2) unfolding claim_where_def by blast+
  have won: "fst (claim_update k (or_null uid) s)"
    using fst_claim_update [OF pk, of k uid] True by (simp only: simp_thms)
  have notin: "k \<notin> set c"
  proof
    assume "k \<in> set c"
    then have "processing k (idempotency_keys s)"
      using assms by (intro sys_inv_processing)
    then have "key r0 \<noteq> k"
      using r0(1) r0'(2) by (intro processing_other_key [OF pk]) simp_all
    then show False
      using r0'(1) by blast
  qed
  have k_proc: "processing k (idempotency_keys ?s')"
  proof -
    have "?f r0 \<in> set (map ?f (idempotency_keys s))"
      using r0(1) by (rule imageI [of r0 "set (idempotency_keys s)" ?f, folded set_map])
    moreover have "key (?f r0) = k \<and> status (?f r0) = Processing"
      using r0(2) r0'(1) by simp
    ultimately show ?thesis
      unfolding processing_def rows_claim by blast
  qed
  have "sys_inv (?s', k # c)"
  proof (rule sys_invI)
    show "primary_key ?s'"
      using pk by (rule primary_key_claim)
    show "distinct (k # c)"
      using notin sys_inv_distinct [OF assms] by simp
    show "processing k' (idempotency_keys ?s')" if "k' \<in> set (k # c)" for k'
    proof (cases "k' = k")
      case True
      then show ?thesis using k_proc by blast
    next
      case False
      then have "k' \<in> set c"
        using that by simp
      from sys_inv_processing [OF assms this] show ?thesis
        by (rule processing_kept) (rule kept_by_claim, simp_all)
    qed
    show "response r' = None" if r': "r' \<in> set (idempotency_keys ?s')" "\<not> terminal (status r')" for r'
    proof -
      from r'(1) obtain r where r: "r \<in> set (idempotency_keys s)" "r' = ?f r"
        unfolding rows_claim by (blast dest: in_set_mapD)
      show ?thesis
      proof (cases "claim_where k (or_null uid) (now s) r")
        case True
        then have "status r = Reserved"
          unfolding claim_where_def by blast
        then have "response r = None"
          using sys_inv_response [OF assms r(1)] by (simp add: terminal_def)
        then show ?thesis
          using r(2) True by simp
      next
        case False
        then have "r' = r"
          using r(2) by simp
        then show ?thesis
          using sys_inv_response [OF assms r(1)] r'(2) by simp
      qed
    qed
  qed
  then show ?thesis
    using won by (simp only: if_True)
qed

lemma sys_inv_record:
  assumes "sys_inv (s, c)" and "terminal st"
  shows "sys_inv (record_result k st payload s, remove1 k c)"
proof (rule sys_invI)
  let ?s' = "record_result k st payload s"
  let ?f = "\<lambda>r. if key r = k then r\<lparr>status := st, response := Some (JObj payload), updated_at := now s\<rparr>
               else r"
  have pk: "primary_key s" and dc: "distinct c"
    using assms(1) by (rule sys_inv_primary_key, rule sys_inv_distinct)
  show "primary_key ?s'"
    using pk by (rule primary_key_record)
  show "distinct (remove1 k c)"
    using dc by simp
  show "processing k' (idempotency_keys ?s')" if "k' \<in> set (remove1 k c)" for k'
  proof -
    from that dc have k': "k' \<in> set c" "k' \<noteq> k"
      by simp_all
    from sys_inv_processing [OF assms(1) k'(1)]
    obtain r where r: "r \<in> set (idempotency_keys s)" "key r = k'" "status r = Processing"
      unfolding processing_def by blast
    have "key r \<noteq> k"
      using r(2) k'(2) by blast
    with r(1) have "r \<in> set (idempotency_keys ?s')"
      by (rule kept_by_record)
    then show ?thesis
      using r unfolding processing_def by blast
  qed
  show "response r' = None" if r': "r' \<in> set (idempotency_keys ?s')" "\<not> terminal (status r')" for r'
  proof -
    from r'(1) obtain r where r: "r \<in> set (idempotency_keys s)" "r' = ?f r"
      unfolding rows_record by (blast dest: in_set_mapD)
    show ?thesis
    proof (cases "key r = k")
      case True
      then have "status r' = st"
        using r(2) by simp
      then show ?thesis
        using r'(2) assms(2) by blast
    next
      case False
      then have "r' = r"
        using r(2) by simp
      then show ?thesis
        using sys_inv_response [OF assms(1) r(1)] r'(2) by simp
    qed
  qed
qed

lemma sys_inv_cleanup:
  assumes "sys_inv (s, c)"
  shows "sys_inv (snd (cleanup s), c)"
proof (rule sys_invI)
  show "primary_key (snd (cleanup s))"
    using assms by (intro primary_key_cleanup sys_inv_primary_key)
  show "distinct c"
    using assms by (rule sys_inv_distinct)
  show "processing k' (idempotency_keys (snd (cleanup s)))" if "k' \<in> set c" for k'
    using sys_inv_processing [OF assms that] by (rule processing_kept) (rule kept_by_cleanup, simp_all)
  show "response r = None"
    if "r \<in> set (idempotency_keys (snd (cleanup s)))" and "\<not> terminal (status r)" for r
  proof -
    have "r \<in> set (idempotency_keys s)"
      using that(1) unfolding rows_cleanup by simp
    then show ?thesis
      using that(2) by (rule sys_inv_response [OF assms])
  qed
qed

lemma sys_inv_tick: "sys_inv (s, c) \<Longrightarrow> sys_inv (tick d s, c)"
  unfolding sys_inv_def fst_conv snd_conv primary_key_tick idempotency_keys_tick .

lemma sys_inv_step:
  assumes "step \<sigma> \<sigma>'" and "sys_inv \<sigma>"
  shows "sys_inv \<sigma>'"
  using assms
proof (induction rule: step.induct)
  case (claim k uid s b s' c)
  then show ?case
    using sys_inv_claim [of s c k uid] tryClaimKey_Inr(2) [of k uid s b s'] by simp
qed (simp_all add: sys_inv_issue sys_inv_record sys_inv_cleanup sys_inv_tick terminal_def)

lemma sys_inv_reachable: "reachable \<sigma> \<Longrightarrow> sys_inv \<sigma>"
proof (induction rule: reachable.induct)
  case (init t)
  then show ?case
    by (simp add: sys_inv_def primary_key_def)
next
  case (later \<sigma> \<sigma>')
  then show ?case
    by (simp add: sys_inv_step)
qed

lemma sys_inv_steps:
  assumes "step\<^sup>*\<^sup>* \<sigma> \<sigma>'" and "sys_inv \<sigma>"
  shows "sys_inv \<sigma>'"
  using assms by (induction rule: rtranclp_induct) (simp_all add: sys_inv_step)

lemma steps_keep_terminal:
  assumes "step\<^sup>*\<^sup>* \<sigma> \<sigma>'" and "sys_inv \<sigma>"
    and "r \<in> set (idempotency_keys (fst \<sigma>))" and "terminal (status r)"
  shows "r \<in> set (idempotency_keys (fst \<sigma>'))"
  using assms
proof (induction rule: rtranclp_induct)
  case base
  then show ?case by simp
next
  case (step \<sigma>1 \<sigma>2)
  have "sys_inv \<sigma>1"
    using step.hyps(1) step.prems(1) by (rule sys_inv_steps)
  moreover have "r \<in> set (idempotency_keys (fst \<sigma>1))"
    using step by simp
  ultimately show ?case
    using step.hyps(2) step.prems(3) step_keeps_terminal [of "fst \<sigma>1" "snd \<sigma>1" "fst \<sigma>2" "snd \<sigma>2" r]
    by simp
qed

text \<open>
  C3. Take any state reached from the empty database by issuing keys, claim attempts,
  the terminal writes of claim winners (completed or failed), sweeps and the passing of
  time, in any interleaving, and any further run of such operations from it. A record
  whose status is \<open>completed\<close> or \<open>failed\<close> is, after the run, still the one record of
  its key, with the same status and the same response (no operation changes or removes
  it); and in the reached state every record whose status is \<open>reserved\<close> or
  \<open>processing\<close> has a null response. The terminal write is the unconditional UPDATE of
  the handler, issued only by the request that won the claim.
\<close>

theorem terminal_records_are_final:
  assumes "reachable (s, c)" and "step\<^sup>*\<^sup>* (s, c) (s', c')"
  shows "(\<forall>r \<in> set (idempotency_keys s).
            status r = Completed \<or> status r = Failed \<longrightarrow> select_key (key r) s' = [r])
       \<and> (\<forall>r \<in> set (idempotency_keys s).
            status r = Reserved \<or> status r = Processing \<longrightarrow> response r = None)"
proof -
  have inv: "sys_inv (s, c)"
    using assms(1) by (rule sys_inv_reachable)
  have inv': "sys_inv (s', c')"
    using assms(2) inv by (rule sys_inv_steps)
  have "select_key (key r) s' = [r]"
    if "r \<in> set (idempotency_keys s)" "status r = Completed \<or> status r = Failed" for r
  proof -
    have "r \<in> set (idempotency_keys s')"
      using steps_keep_terminal [OF assms(2) inv, of r] that by (simp add: terminal_def)
    then show ?thesis
      using inv' by (intro select_key_member) (simp_all add: sys_inv_def)
  qed
  moreover have "response r = None"
    if "r \<in> set (idempotency_keys s)" "status r = Reserved \<or> status r = Processing" for r
    using inv that by (auto simp: sys_inv_def terminal_def)
  ultimately show ?thesis
    by blast
qed

theorem terminal_records_are_final_witness:
  "reachable (db_of [completed_row ''k1'' (fmap_of_list [(''success'', JBool True)])] 0, [])
   \<and> step\<^sup>*\<^sup>* (db_of [completed_row ''k1'' (fmap_of_list [(''success'', JBool True)])] 0, [])
                     (db_of [completed_row ''k1'' (fmap_of_list [(''success'', JBool True)])] 90000000, [])
   \<and> select_key ''k1'' (db_of [completed_row ''k1'' (fmap_of_list [(''success'', JBool True)])] 90000000)
       = [completed_row ''k1'' (fmap_of_list [(''success'', JBool True)])]"
proof -
  let ?R = "reserved_row ''k1'' None (Some 86400000)"
  let ?P = "?R\<lparr>status := Processing\<rparr>"
  let ?m = "fmap_of_list [(''success'', JBool True)]"
  let ?C = "completed_row ''k1'' ?m"
  have r0: "reachable (db_of [] 0, [])"
    unfolding db_of_def by (rule reachable.init)
  have "step (db_of [] 0, []) (snd (post_idempotency_keys 1440 ''k1'' 0 None None (db_of [] 0)), [])"
    by (rule step.issue)
  moreover have "snd (post_idempotency_keys 1440 ''k1'' 0 None None (db_of [] 0)) = db_of [?R] 0"
    by (simp add: post_idempotency_keys_def TIMESTAMP_ok_def binds_def text_binds_def
          example_defs or_null_def or_null_text_def falsy_def falsy_text_def)
  ultimately have s1: "step (db_of [] 0, []) (db_of [?R] 0, [])"
    by simp
  have "tryClaimKey ''k1'' (Some 7) (db_of [?R] 0) = Inr (True, db_of [?P] 0)"
    by (simp add: example_defs claim_defs)
  from step.claim [OF this, of "[]"] have s2: "step (db_of [?R] 0, []) (db_of [?P] 0, [''k1''])"
    by simp
  have "step (db_of [?P] 0, [''k1'']) (record_result ''k1'' Completed ?m (db_of [?P] 0), remove1 ''k1'' [''k1''])"
    by (rule step.complete) simp
  moreover have "record_result ''k1'' Completed ?m (db_of [?P] 0) = db_of [?C] 0"
    by (simp add: record_result_def example_defs completed_row_def)
  ultimately have s3: "step (db_of [?P] 0, [''k1'']) (db_of [?C] 0, [])"
    by simp
  have reach: "reachable (db_of [?C] 0, [])"
    using r0 s1 s2 s3 by (blast intro: reachable.later)
  have "step (db_of [?C] 0, []) (tick 90000000 (db_of [?C] 0), [])"
    by (rule step.clock)
  then have s4: "step (db_of [?C] 0, []) (db_of [?C] 90000000, [])"
    by (simp add: tick_def db_of_def)
  have "step (db_of [?C] 90000000, []) (snd (cleanup (db_of [?C] 90000000)), [])"
    by (rule step.sweep)
  moreover have "snd (cleanup (db_of [?C] 90000000)) = db_of [?C] 90000000"
    by (simp add: cleanup_def cleanup_where_def example_defs completed_row_def)
  ultimately have s5: "step (db_of [?C] 90000000, []) (db_of [?C] 90000000, [])"
    by simp
  have steps: "step\<^sup>*\<^sup>* (db_of [?C] 0, []) (db_of [?C] 90000000, [])"
    using s4 s5 by (blast intro: rtranclp.intros)
  have mem: "?C \<in> set (idempotency_keys (db_of [?C] 0))" and st: "status ?C = Completed"
    and k: "key ?C = ''k1''"
    by (simp_all add: example_defs completed_row_def)
  show ?thesis
    using terminal_records_are_final [OF reach steps] reach steps mem st k by auto
qed

section \<open>The short-poll loop\<close>

lemma short_poll_timeout:
  "\<not> waited < maxWaitMs \<Longrightarrow> short_poll env k i waited s = (Inr (Http 202 (JObj (fmap_of_list [(''status'', JStr ''processing''), (''message'', JStr ''Request being processed; check status endpoint.'')]))), 0, s)"
  by (subst short_poll.simps) simp

lemma short_poll_read:
  assumes "waited < maxWaitMs"
  shows "short_poll env k i waited s =
     (case observe k (env i s) of
        Absent \<Rightarrow> (Inl undefined_status, 1, env i s)
      | Seen st resp \<Rightarrow>
          if st = Completed then (Inr (Http 200 resp), 1, env i s)
          else if st = Failed then (Inr (Http 500 (JObj (fmap_of_list [(''error'', JStr ''Previous attempt failed''), (''detail'', resp)]))), 1, env i s)
          else (case short_poll env k (Suc i) (waited + intervalMs) (env i s) of
                  (res, n, s2) \<Rightarrow> (res, Suc n, s2)))"
  using assms
  by (subst short_poll.simps) (simp add: observe_def Let_def split: list.splits)

lemma short_poll_in_flight:
  assumes "waited < maxWaitMs" and "in_flight (observe k (env i s))"
  shows "short_poll env k i waited s =
     (case short_poll env k (Suc i) (waited + intervalMs) (env i s) of
        (res, n, s2) \<Rightarrow> (res, Suc n, s2))"
  using assms(2) unfolding short_poll_read [OF assms(1)]
  by (cases "observe k (env i s)") (simp_all add: in_flight_def terminal_def)

lemma reads_left_0: "reads_left 0 = 50"
  by (simp add: reads_left_def maxWaitMs_def intervalMs_def)

lemma reads_left_done: "\<not> w < maxWaitMs \<Longrightarrow> reads_left w = 0"
  by (simp add: reads_left_def maxWaitMs_def intervalMs_def)

lemma reads_left_Suc:
  assumes "w < maxWaitMs"
  shows "reads_left w = Suc (reads_left (w + intervalMs))"
proof -
  let ?x = "(4999 - w) div 100"
  have "5099 - w = (4999 - w) + 100"
    by simp
  then have a: "(5099 - w) div 100 = ?x + 1"
    by (simp only: div_add_self2)
  have b: "0 \<le> ?x"
    using assms by (simp add: maxWaitMs_def pos_imp_zdiv_nonneg_iff)
  have "reads_left w = nat (?x + 1)"
    using a by (simp add: reads_left_def maxWaitMs_def intervalMs_def)
  also have "\<dots> = Suc (nat ?x)"
    using b by (simp add: nat_add_distrib)
  also have "nat ?x = reads_left (w + intervalMs)"
    by (simp add: reads_left_def maxWaitMs_def intervalMs_def)
  finally show ?thesis .
qed

lemma short_poll_polls_le: "fst (snd (short_poll env k i w s)) \<le> reads_left w"
proof (induction env k i w s rule: short_poll.induct)
  case (1 env k i waited s)
  show ?case
  proof (cases "waited < maxWaitMs")
    case False
    then show ?thesis by (simp add: short_poll_timeout)
  next
    case True
    show ?thesis
    proof (cases "in_flight (observe k (env i s))")
      case False
      then show ?thesis
        unfolding short_poll_read [OF True] reads_left_Suc [OF True]
        by (cases "observe k (env i s)") (auto simp: in_flight_def terminal_def)
    next
      case flight: True
      then obtain r rest where sel: "select_key k (env i s) = r # rest"
        and st: "status r \<noteq> Completed" "status r \<noteq> Failed"
        by (auto simp: observe_def in_flight_def terminal_def split: list.splits)
      have "fst (snd (short_poll env k (Suc i) (waited + intervalMs) (env i s))) \<le> reads_left (waited + intervalMs)"
        using "1.IH" [OF True refl sel st] .
      then show ?thesis
        unfolding short_poll_in_flight [where env = env and i = i and s = s, OF True flight] reads_left_Suc [OF True]
        by (simp add: case_prod_beta)
    qed
  qed
qed

lemma short_poll_exit:
  assumes "j < reads_left w"
    and "\<forall>j' < j. in_flight (observe k (read_state env i j' s))"
    and "\<not> in_flight (observe k (read_state env i j s))"
  shows "short_poll env k i w s =
     ((case observe k (read_state env i j s) of
         Absent \<Rightarrow> Inl undefined_status
       | Seen st resp \<Rightarrow>
           if st = Completed then Inr (Http 200 resp) else Inr (Http 500 (JObj (fmap_of_list [(''error'', JStr ''Previous attempt failed''), (''detail'', resp)])))),
      Suc j, read_state env i j s)"
  using assms
proof (induction j arbitrary: i w s)
  case 0
  have w: "w < maxWaitMs"
    using "0.prems"(1) reads_left_done by fastforce
  show ?case
    using "0.prems"(3) unfolding short_poll_read [OF w]
    by (cases "observe k (env i s)") (auto simp: in_flight_def terminal_def)
next
  case (Suc j)
  have w: "w < maxWaitMs"
    using Suc.prems(1) reads_left_done by fastforce
  have flight: "in_flight (observe k (env i s))"
    using Suc.prems(2) by (metis read_state.simps(1) zero_less_Suc)
  have "j < reads_left (w + intervalMs)"
    using Suc.prems(1) reads_left_Suc [OF w] by simp
  moreover have "\<forall>j' < j. in_flight (observe k (read_state env (Suc i) j' (env i s)))"
    using Suc.prems(2) by (metis Suc_less_eq read_state.simps(2))
  moreover have "\<not> in_flight (observe k (read_state env (Suc i) j (env i s)))"
    using Suc.prems(3) by simp
  ultimately show ?case
    unfolding short_poll_in_flight [where env = env and i = i and s = s, OF w flight] by (simp add: Suc.IH)
qed

lemma short_poll_all_in_flight:
  assumes "\<forall>j < reads_left w. in_flight (observe k (read_state env i j s))"
  shows "fst (short_poll env k i w s) = Inr (Http 202 (JObj (fmap_of_list [(''status'', JStr ''processing''), (''message'', JStr ''Request being processed; check status endpoint.'')])))
       \<and> fst (snd (short_poll env k i w s)) = reads_left w"
  using assms
proof (induction env k i w s rule: short_poll.induct)
  case (1 env k i waited s)
  show ?case
  proof (cases "waited < maxWaitMs")
    case False
    then show ?thesis by (simp add: short_poll_timeout reads_left_done)
  next
    case True
    have flight: "in_flight (observe k (env i s))"
      using "1.prems" reads_left_Suc [OF True] by (metis read_state.simps(1) zero_less_Suc)
    then obtain r rest where sel: "select_key k (env i s) = r # rest"
      and st: "status r \<noteq> Completed" "status r \<noteq> Failed"
      by (auto simp: observe_def in_flight_def terminal_def split: list.splits)
    have "\<forall>j < reads_left (waited + intervalMs). in_flight (observe k (read_state env (Suc i) j (env i s)))"
      using "1.prems" reads_left_Suc [OF True] by (metis Suc_less_eq read_state.simps(2))
    from "1.IH" [OF True refl sel st this] show ?thesis
      unfolding short_poll_in_flight [where env = env and i = i and s = s, OF True flight] reads_left_Suc [OF True]
      by (simp add: case_prod_beta)
  qed
qed

text \<open>
  C7. The short-poll loop is a total function: it returns on every input, whatever the
  other executors do between its reads. Started with \<open>waited = 0\<close> it reads the key's
  status at most \<open>ceil(maxWaitMs / intervalMs) = 50\<close> times. If a read finds the status
  \<open>completed\<close>, after reads that all found the key in flight, the loop returns HTTP 200
  with the response stored in the record; if it finds \<open>failed\<close>, HTTP 500 with the
  stored error as detail; and if all 50 reads find the key in flight, it returns HTTP
  202 with the "processing" body after exactly 50 reads.
\<close>

theorem short_poll_bounded:
  "fst (snd (short_poll env k i 0 s)) \<le> 50
   \<and> (maxWaitMs + intervalMs - 1) div intervalMs = 50
   \<and> (\<forall>j resp. j < 50 \<and> (\<forall>j' < j. in_flight (observe k (read_state env i j' s)))
                \<and> observe k (read_state env i j s) = Seen Completed resp
             \<longrightarrow> short_poll env k i 0 s = (Inr (Http 200 resp), Suc j, read_state env i j s))
   \<and> (\<forall>j resp. j < 50 \<and> (\<forall>j' < j. in_flight (observe k (read_state env i j' s)))
                \<and> observe k (read_state env i j s) = Seen Failed resp
             \<longrightarrow> short_poll env k i 0 s =
                   (Inr (Http 500 (JObj (fmap_of_list [(''error'', JStr ''Previous attempt failed''), (''detail'', resp)]))), Suc j, read_state env i j s))
   \<and> ((\<forall>j < 50. in_flight (observe k (read_state env i j s)))
        \<longrightarrow> fst (short_poll env k i 0 s) = Inr (Http 202 (JObj (fmap_of_list [(''status'', JStr ''processing''), (''message'', JStr ''Request being processed; check status endpoint.'')])))
            \<and> fst (snd (short_poll env k i 0 s)) = 50)"
proof -
  have a: "fst (snd (short_poll env k i 0 s)) \<le> 50"
    using short_poll_polls_le [of env k i 0 s] unfolding reads_left_0 .
  have b: "(maxWaitMs + intervalMs - 1) div intervalMs = 50"
    by (simp add: maxWaitMs_def intervalMs_def)
  have c: "\<forall>j resp. j < 50 \<and> (\<forall>j' < j. in_flight (observe k (read_state env i j' s)))
                \<and> observe k (read_state env i j s) = Seen Completed resp
             \<longrightarrow> short_poll env k i 0 s = (Inr (Http 200 resp), Suc j, read_state env i j s)"
  proof (intro allI impI)
    fix j resp
    assume h: "j < 50 \<and> (\<forall>j' < j. in_flight (observe k (read_state env i j' s)))
         \<and> observe k (read_state env i j s) = Seen Completed resp"
    have out: "\<not> in_flight (observe k (read_state env i j s))"
      using h by (simp add: in_flight_def terminal_def)
    have j: "j < reads_left 0"
      using h by (simp add: reads_left_0)
    show "short_poll env k i 0 s = (Inr (Http 200 resp), Suc j, read_state env i j s)"
      using short_poll_exit [where env = env and i = i and s = s and k = k and j = j and w = 0, OF j _ out] h
      by simp
  qed
  have d: "\<forall>j resp. j < 50 \<and> (\<forall>j' < j. in_flight (observe k (read_state env i j' s)))
                \<and> observe k (read_state env i j s) = Seen Failed resp
             \<longrightarrow> short_poll env k i 0 s =
                   (Inr (Http 500 (JObj (fmap_of_list [(''error'', JStr ''Previous attempt failed''), (''detail'', resp)]))), Suc j, read_state env i j s)"
  proof (intro allI impI)
    fix j resp
    assume h: "j < 50 \<and> (\<forall>j' < j. in_flight (observe k (read_state env i j' s)))
         \<and> observe k (read_state env i j s) = Seen Failed resp"
    have out: "\<not> in_flight (observe k (read_state env i j s))"
      using h by (simp add: in_flight_def terminal_def)
    have j: "j < reads_left 0"
      using h by (simp add: reads_left_0)
    show "short_poll env k i 0 s =
            (Inr (Http 500 (JObj (fmap_of_list [(''error'', JStr ''Previous attempt failed''), (''detail'', resp)]))), Suc j, read_state env i j s)"
      using short_poll_exit [where env = env and i = i and s = s and k = k and j = j and w = 0, OF j _ out] h
      by simp
  qed
  have e: "(\<forall>j < 50. in_flight (observe k (read_state env i j s)))
        \<longrightarrow> fst (short_poll env k i 0 s) = Inr (Http 202 (JObj (fmap_of_list [(''status'', JStr ''processing''), (''message'', JStr ''Request being processed; check status endpoint.'')])))
            \<and> fst (snd (short_poll env k i 0 s)) = 50"
  proof
    assume h: "\<forall>j < 50. in_flight (observe k (read_state env i j s))"
    have "\<forall>j < reads_left 0. in_flight (observe k (read_state env i j s))"
      using h by (simp add: reads_left_0)
    from short_poll_all_in_flight [where env = env and i = i and s = s and k = k and w = 0, OF this]
    show "fst (short_poll env k i 0 s) = Inr (Http 202 (JObj (fmap_of_list [(''status'', JStr ''processing''), (''message'', JStr ''Request being processed; check status endpoint.'')])))
            \<and> fst (snd (short_poll env k i 0 s)) = 50"
      unfolding reads_left_0 .
  qed
  show ?thesis
    by (intro conjI a b c d e)
qed

theorem short_poll_bounded_witness:
  "short_poll completes_at_5 ''k1'' 2 0
     (db_of [(reserved_row ''k1'' None (Some 86400000))\<lparr>status := Processing\<rparr>] 0)
     = (Inr (Http 200 (JObj (fmap_of_list [(''success'', JBool True)]))), 4,
        db_of [completed_row ''k1'' (fmap_of_list [(''success'', JBool True)])] 0)"
proof -
  let ?s = "db_of [(reserved_row ''k1'' None (Some 86400000))\<lparr>status := Processing\<rparr>] 0"
  have flight: "\<forall>j' < 3. in_flight (observe ''k1'' (read_state completes_at_5 2 j' ?s))"
    by (simp add: numeral_3_eq_3 less_Suc_eq completes_at_5_def observe_def select_key_def
          in_flight_def terminal_def example_defs)
  have seen: "observe ''k1'' (read_state completes_at_5 2 3 ?s)
                = Seen Completed (JObj (fmap_of_list [(''success'', JBool True)]))"
    by (simp add: numeral_3_eq_3 completes_at_5_def observe_def select_key_def record_result_def
          from_column_def example_defs)
  have fin: "read_state completes_at_5 2 3 ?s
               = db_of [completed_row ''k1'' (fmap_of_list [(''success'', JBool True)])] 0"
    by (simp add: numeral_3_eq_3 completes_at_5_def record_result_def
          completed_row_def example_defs)
  note third = short_poll_bounded [of completes_at_5 "''k1''" 2 ?s, THEN conjunct2, THEN conjunct2,
      THEN conjunct1, rule_format, of 3 "JObj (fmap_of_list [(''success'', JBool True)])"]
  have "short_poll completes_at_5 ''k1'' 2 0 ?s
          = (Inr (Http 200 (JObj (fmap_of_list [(''success'', JBool True)]))), Suc 3,
             read_state completes_at_5 2 3 ?s)"
    using flight seen by (intro third) simp
  then show ?thesis
    unfolding fin by simp
qed

section \<open>The handler of POST /pay\<close>

lemma presents_or_null: "presents req k \<Longrightarrow> or_null (body_user_id req) = body_user_id req"
  by (simp add: presents_def or_null_def)

lemma pay_unknown:
  assumes "presents req k" and "select_key k (env 0 s) = []"
  shows "pay env fault req s =
           \<lparr>reply = Http 400 (JObj (fmap_of_list
                       [(''error'', JStr ''Unknown idempotency key. Acquire a key first.'')])),
            polls = 0, final = env 0 s\<rparr>"
  using assms by (simp add: pay_def presents_def falsy_text_def Let_def)

lemma pay_completed:
  assumes "presents req k" and "select_key k (env 0 s) = row # rest" and "status row = Completed"
  shows "pay env fault req s = \<lparr>reply = Http 200 (from_column (response row)), polls = 0, final = env 0 s\<rparr>"
  using assms by (simp add: pay_def presents_def falsy_text_def Let_def)

lemma pay_refused:
  assumes "presents req k" and "select_key k (env 0 s) = row # rest" and "status row \<noteq> Completed"
    and "tryClaimKey k (body_user_id req) (env 1 (env 0 s)) = Inl msg"
  shows "pay env fault req s =
           \<lparr>reply = Http 500 (JObj (fmap_of_list [(''error'', JStr ''Server error''),
                                                   (''detail'', JStr msg)])),
            polls = 0, final = env 1 (env 0 s)\<rparr>"
  using assms by (simp add: pay_def presents_def falsy_text_def Let_def)

lemma pay_lost:
  assumes "presents req k" and "select_key k (env 0 s) = row # rest" and "status row \<noteq> Completed"
    and "tryClaimKey k (body_user_id req) (env 1 (env 0 s)) = Inr (False, s2)"
  shows "pay env fault req s =
     (case short_poll env k 2 0 s2 of
        (Inr r, n, s3) \<Rightarrow> \<lparr>reply = r, polls = n, final = s3\<rparr>
      | (Inl msg, n, s3) \<Rightarrow>
          \<lparr>reply = Http 500 (JObj (fmap_of_list [(''error'', JStr ''Server error''),
                                                  (''detail'', JStr msg)])),
           polls = n, final = s3\<rparr>)"
  using assms by (simp add: pay_def presents_def falsy_text_def Let_def)

lemma pay_won:
  assumes "presents req k" and "select_key k (env 0 s) = row # rest" and "status row \<noteq> Completed"
    and "tryClaimKey k (body_user_id req) (env 1 (env 0 s)) = Inr (True, s2)"
  shows "pay env fault req s =
     claimed_branch env fault k (the (body_user_id req)) (the (body_amount req)) s2"
  using assms by (simp add: pay_def presents_def falsy_text_def Let_def)

text \<open>
  C9. The loop takes \<open>q.rows[0]\<close> without looking at the row count. When the request
  passed the entry checks, found its key (not completed) at the first SELECT and did not
  claim it, and a read of the loop (number \<open>j\<close>, after reads that found the key in
  flight) finds no row of the key, reading \<open>r.status\<close> throws and the handler answers
  HTTP 500 "Server error" with the message of the TypeError; a key that is absent at the
  first SELECT gets the 400 "Unknown idempotency key" answer instead.
\<close>

theorem pay_row_gone:
  assumes "presents req k"
    and "select_key k (env 0 s) = row # rest" and "status row \<noteq> Completed"
    and "tryClaimKey k (body_user_id req) (env 1 (env 0 s)) = Inr (False, s2)"
    and "j < 50" and "\<forall>j' < j. in_flight (observe k (read_state env 2 j' s2))"
    and "observe k (read_state env 2 j s2) = Absent"
  shows "pay env fault req s =
           \<lparr>reply = Http 500 (JObj (fmap_of_list [(''error'', JStr ''Server error''),
                                                   (''detail'', JStr undefined_status)])),
            polls = Suc j, final = read_state env 2 j s2\<rparr>
       \<and> (\<forall>s0. select_key k (env 0 s0) = [] \<longrightarrow>
             pay env fault req s0 =
               \<lparr>reply = Http 400 (JObj (fmap_of_list
                           [(''error'', JStr ''Unknown idempotency key. Acquire a key first.'')])),
                polls = 0, final = env 0 s0\<rparr>)"
proof
  have out: "\<not> in_flight (observe k (read_state env 2 j s2))"
    using assms(7) by (simp add: in_flight_def)
  have j: "j < reads_left 0"
    using assms(5) by (simp add: reads_left_0)
  have "short_poll env k 2 0 s2 = (Inl undefined_status, Suc j, read_state env 2 j s2)"
    using short_poll_exit [where env = env and i = 2 and s = s2 and k = k and j = j and w = 0,
        OF j assms(6) out] assms(7)
    by simp
  then show "pay env fault req s =
           \<lparr>reply = Http 500 (JObj (fmap_of_list [(''error'', JStr ''Server error''),
                                                   (''detail'', JStr undefined_status)])),
            polls = Suc j, final = read_state env 2 j s2\<rparr>"
    unfolding pay_lost [OF assms(1-4)] by simp
  show "\<forall>s0. select_key k (env 0 s0) = [] \<longrightarrow>
             pay env fault req s0 =
               \<lparr>reply = Http 400 (JObj (fmap_of_list
                           [(''error'', JStr ''Unknown idempotency key. Acquire a key first.'')])),
                polls = 0, final = env 0 s0\<rparr>"
    using pay_unknown [OF assms(1)] by simp
qed

theorem pay_row_gone_witness:
  "pay sweeps_at_2 None (pay_7_100 ''k1'') (db_of [reserved_row ''k1'' None (Some 100)] 200)
     = \<lparr>reply = Http 500 (JObj (fmap_of_list [(''error'', JStr ''Server error''),
                                              (''detail'', JStr undefined_status)])),
        polls = 1, final = db_of [] 200\<rparr>"
proof -
  let ?s = "db_of [reserved_row ''k1'' None (Some 100)] 200"
  let ?req = "pay_7_100 ''k1''"
  have p: "presents ?req ''k1''"
    by (simp add: presents_def pay_7_100_def falsy_def)
  have sel: "select_key ''k1'' (sweeps_at_2 0 ?s) = reserved_row ''k1'' None (Some 100) # []"
    by (simp add: sweeps_at_2_def select_key_def example_defs)
  have st: "status (reserved_row ''k1'' None (Some 100)) \<noteq> Completed"
    by (simp add: reserved_row_def)
  have lost: "tryClaimKey ''k1'' (body_user_id ?req) (sweeps_at_2 1 (sweeps_at_2 0 ?s)) = Inr (False, ?s)"
    by (simp add: sweeps_at_2_def pay_7_100_def example_defs claim_defs)
  have gone: "observe ''k1'' (read_state sweeps_at_2 2 0 ?s) = Absent"
    by (simp add: sweeps_at_2_def cleanup_def cleanup_where_def sql_lt_def observe_def select_key_def example_defs)
  have fin: "read_state sweeps_at_2 2 0 ?s = db_of [] 200"
    by (simp add: sweeps_at_2_def cleanup_def cleanup_where_def sql_lt_def example_defs)
  show ?thesis
    using pay_row_gone [OF p sel st lost _ _ gone, of None, THEN conjunct1] fin by simp
qed

lemma same_tables_refl: "same_tables s s"
  by (simp add: same_tables_def)

lemma same_tables_trans: "same_tables s s1 \<Longrightarrow> same_tables s1 s2 \<Longrightarrow> same_tables s s2"
  by (simp add: same_tables_def)

lemma quiet_same_tables: "quiet env \<Longrightarrow> same_tables s (env i s)"
  unfolding quiet_def same_tables_def by blast

lemma quiet_now: "quiet env \<Longrightarrow> now s \<le> now (env i s)"
  unfolding quiet_def by blast

lemma same_tables_select: "same_tables s s' \<Longrightarrow> select_key k s' = select_key k s"
  by (simp add: same_tables_def select_key_def)

lemma same_tables_observe: "same_tables s s' \<Longrightarrow> observe k s' = observe k s"
  by (simp add: observe_def same_tables_select)

lemma same_tables_primary_key: "same_tables s s' \<Longrightarrow> primary_key s' = primary_key s"
  by (simp add: same_tables_def primary_key_def)

lemma quiet_read_state: "quiet env \<Longrightarrow> same_tables s (read_state env i j s)"
proof (induction j arbitrary: i s)
  case 0
  then show ?case by (simp add: quiet_same_tables)
next
  case (Suc j)
  have "same_tables s (env i s)"
    using Suc.prems by (rule quiet_same_tables)
  moreover have "same_tables (env i s) (read_state env (Suc i) j (env i s))"
    using Suc.prems by (rule Suc.IH)
  ultimately show ?case
    by (simp add: same_tables_trans)
qed

lemma observe_member:
  assumes "primary_key s" and "r \<in> set (idempotency_keys s)"
  shows "observe (key r) s = Seen (status r) (from_column (response r))"
  using select_key_member [OF assms] by (simp add: observe_def)

lemma not_admits_row:
  assumes "primary_key s" and "row \<in> set (idempotency_keys s)" and "key row = k"
    and "status row \<noteq> Reserved \<or> (\<exists>u. reserved_until row = Some u \<and> u \<le> t)"
    and "same_tables s s'" and "t \<le> now s'"
  shows "\<not> admits k uid s'"
proof
  assume "admits k uid s'"
  then obtain r where r: "r \<in> set (idempotency_keys s')" "key r = k" "status r = Reserved"
    "case reserved_until r of None \<Rightarrow> True | Some u \<Rightarrow> now s' < u"
    unfolding admits_def by blast
  have "r \<in> set (idempotency_keys s)"
    using r(1) assms(5) by (simp add: same_tables_def)
  then have "r = row"
    using same_key_same_row [OF assms(1)[unfolded primary_key_def] _ assms(2)] r(2) assms(3) by simp
  then show False
    using r(3,4) assms(4,6) by auto
qed

lemma short_poll_quiet:
  assumes "quiet env"
  shows "same_tables s (snd (snd (short_poll env k i w s)))"
  using assms
proof (induction env k i w s rule: short_poll.induct)
  case (1 env k i waited s)
  note q = "1.prems"
  show ?case
  proof (cases "waited < maxWaitMs")
    case False
    then show ?thesis by (simp add: short_poll_timeout same_tables_refl)
  next
    case True
    have e: "same_tables s (env i s)"
      using q by (rule quiet_same_tables)
    show ?thesis
    proof (cases "in_flight (observe k (env i s))")
      case False
      then show ?thesis
        unfolding short_poll_read [OF True] using e
        by (cases "observe k (env i s)") (auto simp: in_flight_def terminal_def)
    next
      case flight: True
      then obtain r rest where sel: "select_key k (env i s) = r # rest"
        and st: "status r \<noteq> Completed" "status r \<noteq> Failed"
        by (auto simp: observe_def in_flight_def terminal_def split: list.splits)
      have "same_tables (env i s) (snd (snd (short_poll env k (Suc i) (waited + intervalMs) (env i s))))"
        using "1.IH" [OF True refl sel st q] .
      with e have "same_tables s (snd (snd (short_poll env k (Suc i) (waited + intervalMs) (env i s))))"
        by (rule same_tables_trans)
      then show ?thesis
        unfolding short_poll_in_flight [where env = env and i = i and s = s, OF True flight]
        by (simp add: case_prod_beta)
    qed
  qed
qed

lemma pay_lost_parts:
  assumes "presents req k" and "select_key k (env 0 s) = row # rest" and "status row \<noteq> Completed"
    and "tryClaimKey k (body_user_id req) (env 1 (env 0 s)) = Inr (False, s2)"
    and "fst (short_poll env k 2 0 s2) = Inr r"
  shows "reply (pay env fault req s) = r"
    and "polls (pay env fault req s) = fst (snd (short_poll env k 2 0 s2))"
    and "final (pay env fault req s) = snd (snd (short_poll env k 2 0 s2))"
  using assms(5) unfolding pay_lost [OF assms(1-4)]
  by (cases "short_poll env k 2 0 s2"; simp)+

lemma quiet_alone: "quiet alone"
  by (simp add: quiet_def alone_def)

lemma quiet_time_passes: "\<forall>i. 0 \<le> d i \<Longrightarrow> quiet (time_passes d)"
  by (simp add: quiet_def time_passes_def tick_def)

lemma presents_pay_7_100: "k \<noteq> [] \<Longrightarrow> presents (pay_7_100 k) k"
  by (simp add: presents_def pay_7_100_def falsy_def)

lemma presents_pay: "k \<noteq> [] \<Longrightarrow> uid \<noteq> 0 \<Longrightarrow> amt \<noteq> 0 \<Longrightarrow>
    presents \<lparr>idempotency_key = Some k, body_user_id = Some uid, body_amount = Some amt\<rparr> k"
  by (simp add: presents_def falsy_def)

lemma never_true_again:
  assumes "\<not> admits k uid s"
  shows "tryClaimKey k uid s \<noteq> Inr (True, s')"
proof (cases "binds (or_null uid)")
  case True
  then show ?thesis
    using tryClaimKey_lost [OF True assms] by simp
next
  case False
  then show ?thesis
    using tryClaimKey_refused [of uid k s] by auto
qed

text \<open>
  C10. A request that passes the entry checks, with a \<open>user_id\<close> within INT (from
  -2147483648 to 2147483647), presents a
  key whose record is still \<open>reserved\<close> and whose \<open>reserved_until\<close> has been reached or
  passed, while nobody else writes. The claim fails, so no payment is executed; the loop
  reads the unchanged \<open>reserved\<close> status 50 times, the whole window, and the handler
  answers HTTP 202 "processing", with both tables as they were. No execution is in
  flight, and no later claim by anyone returns true on that record.
\<close>

theorem pay_expired_reservation:
  assumes "presents req k"
    and "\<forall>n. body_user_id req = Some n \<longrightarrow> - 2147483648 \<le> n \<and> n \<le> 2147483647"
    and "quiet env" and "primary_key s"
    and "row \<in> set (idempotency_keys s)" and "key row = k" and "status row = Reserved"
    and "reserved_until row = Some u" and "u \<le> now s"
  shows "reply (pay env fault req s) =
           Http 202 (JObj (fmap_of_list
             [(''status'', JStr ''processing''),
              (''message'', JStr ''Request being processed; check status endpoint.'')]))
       \<and> polls (pay env fault req s) = 50
       \<and> same_tables s (final (pay env fault req s))
       \<and> (\<forall>uid d s'. 0 \<le> d \<longrightarrow> tryClaimKey k uid (tick d s) \<noteq> Inr (True, s'))"
proof -
  let ?s1 = "env 0 s"
  let ?s2 = "env 1 ?s1"
  have t1: "same_tables s ?s1" and t2: "same_tables s ?s2"
    using quiet_same_tables [OF assms(3)] same_tables_trans by blast+
  have sel: "select_key k ?s1 = row # []"
    using select_key_member [OF assms(4,5)] assms(6) same_tables_select [OF t1] by simp
  have st: "status row \<noteq> Completed"
    using assms(7) by simp
  have b: "binds (or_null (body_user_id req))"
    using assms(2) presents_or_null [OF assms(1)] by (simp add: binds_iff)
  have "now s \<le> now ?s2"
    using quiet_now [OF assms(3), of s 0] quiet_now [OF assms(3), of ?s1 1] by simp
  then have "\<not> admits k (body_user_id req) ?s2"
    using assms by (intro not_admits_row [OF assms(4,5,6) _ t2, of u]) simp_all
  with b have lost: "tryClaimKey k (body_user_id req) ?s2 = Inr (False, ?s2)"
    by (rule tryClaimKey_lost)
  have obs: "observe k s = Seen Reserved (from_column (response row))"
    using observe_member [OF assms(4,5)] assms(6,7) by simp
  have "\<forall>j < reads_left 0. in_flight (observe k (read_state env 2 j ?s2))"
  proof (intro allI impI)
    fix j
    have "same_tables s (read_state env 2 j ?s2)"
      using t2 quiet_read_state [OF assms(3)] by (rule same_tables_trans)
    then show "in_flight (observe k (read_state env 2 j ?s2))"
      using obs by (simp add: same_tables_observe in_flight_def terminal_def)
  qed
  from short_poll_all_in_flight [where env = env and i = 2 and s = ?s2 and k = k and w = 0, OF this]
  have sp: "fst (short_poll env k 2 0 ?s2) =
              Inr (Http 202 (JObj (fmap_of_list
                [(''status'', JStr ''processing''),
                 (''message'', JStr ''Request being processed; check status endpoint.'')])))"
    "fst (snd (short_poll env k 2 0 ?s2)) = 50"
    by (simp_all add: reads_left_0)
  have "same_tables s (snd (snd (short_poll env k 2 0 ?s2)))"
    using t2 short_poll_quiet [OF assms(3)] by (rule same_tables_trans)
  moreover have "tryClaimKey k uid (tick d s) \<noteq> Inr (True, s')" if "0 \<le> d" for uid d s'
  proof (rule never_true_again)
    show "\<not> admits k uid (tick d s)"
      using assms that
      by (intro not_admits_row [OF assms(4,5,6), of u]) (simp_all add: tick_def same_tables_def)
  qed
  ultimately show ?thesis
    using pay_lost_parts [OF assms(1) sel st lost sp(1), of fault] sp(2) by simp
qed

theorem pay_expired_reservation_witness:
  "reply (pay (time_passes (\<lambda>i. 100)) None (pay_7_100 ''k1'')
            (db_of [reserved_row ''k1'' None (Some 100)] 200))
     = Http 202 (JObj (fmap_of_list
         [(''status'', JStr ''processing''),
          (''message'', JStr ''Request being processed; check status endpoint.'')]))
   \<and> polls (pay (time_passes (\<lambda>i. 100)) None (pay_7_100 ''k1'')
            (db_of [reserved_row ''k1'' None (Some 100)] 200)) = 50
   \<and> payments (final (pay (time_passes (\<lambda>i. 100)) None (pay_7_100 ''k1'')
            (db_of [reserved_row ''k1'' None (Some 100)] 200))) = []"
proof -
  let ?s = "db_of [reserved_row ''k1'' None (Some 100)] 200"
  have p: "presents (pay_7_100 ''k1'') ''k1''"
    by (rule presents_pay_7_100) simp
  have b: "\<forall>n. body_user_id (pay_7_100 ''k1'') = Some n \<longrightarrow> - 2147483648 \<le> n \<and> n \<le> 2147483647"
    by (simp add: pay_7_100_def)
  have q: "quiet (time_passes (\<lambda>i. 100))"
    by (rule quiet_time_passes) simp
  have pk: "primary_key ?s"
    by (simp add: example_defs)
  have mem: "reserved_row ''k1'' None (Some 100) \<in> set (idempotency_keys ?s)"
    by (simp add: db_of_def)
  have row: "key (reserved_row ''k1'' None (Some 100)) = ''k1''"
    "status (reserved_row ''k1'' None (Some 100)) = Reserved"
    "reserved_until (reserved_row ''k1'' None (Some 100)) = Some 100"
    by (simp_all add: reserved_row_def)
  have late: "100 \<le> now ?s"
    by (simp add: db_of_def)
  show ?thesis
    using pay_expired_reservation [OF p b q pk mem row late, of None]
    by (simp add: same_tables_def db_of_def)
qed

lemma pay_terminal:
  assumes "presents req k" and "quiet env" and "primary_key s"
    and "row \<in> set (idempotency_keys s)" and "key row = k"
    and "status row = Completed
         \<or> (status row = Failed
             \<and> (\<forall>n. body_user_id req = Some n \<longrightarrow> - 2147483648 \<le> n \<and> n \<le> 2147483647))"
  shows "reply (pay env fault req s) =
           (if status row = Completed then Http 200 (from_column (response row))
            else Http 500 (JObj (fmap_of_list [(''error'', JStr ''Previous attempt failed''),
                                                (''detail'', from_column (response row))])))"
    and "same_tables s (final (pay env fault req s))"
proof -
  let ?s1 = "env 0 s"
  let ?s2 = "env 1 ?s1"
  have t1: "same_tables s ?s1" and t2: "same_tables s ?s2"
    using quiet_same_tables [OF assms(2)] same_tables_trans by blast+
  have sel: "select_key k ?s1 = row # []"
    using select_key_member [OF assms(3,4)] assms(5) same_tables_select [OF t1] by simp
  have both: "reply (pay env fault req s) =
           (if status row = Completed then Http 200 (from_column (response row))
            else Http 500 (JObj (fmap_of_list [(''error'', JStr ''Previous attempt failed''),
                                                (''detail'', from_column (response row))])))
       \<and> same_tables s (final (pay env fault req s))"
  proof (cases "status row = Completed")
    case True
    show ?thesis
      unfolding pay_completed [where env = env and s = s, OF assms(1) sel True] using True t1 by simp
  next
    case False
    then have failed: "status row = Failed" and "binds (body_user_id req)"
      using assms(6) by (simp_all add: binds_iff)
    then have b: "binds (or_null (body_user_id req))"
      using presents_or_null [OF assms(1)] by simp
    have "\<not> admits k (body_user_id req) ?s2"
      using failed by (intro not_admits_row [OF assms(3,4,5) _ t2, of "now ?s2"]) simp_all
    with b have lost: "tryClaimKey k (body_user_id req) ?s2 = Inr (False, ?s2)"
      by (rule tryClaimKey_lost)
    have "same_tables s (read_state env 2 0 ?s2)"
      using t2 quiet_read_state [OF assms(2)] by (rule same_tables_trans)
    then have obs: "observe k (read_state env 2 0 ?s2) = Seen Failed (from_column (response row))"
      using observe_member [OF assms(3,4)] assms(5) failed by (simp add: same_tables_observe)
    then have out: "\<not> in_flight (observe k (read_state env 2 0 ?s2))"
      by (simp add: in_flight_def terminal_def)
    have "short_poll env k 2 0 ?s2 =
            (Inr (Http 500 (JObj (fmap_of_list [(''error'', JStr ''Previous attempt failed''),
                                                 (''detail'', from_column (response row))]))),
             Suc 0, read_state env 2 0 ?s2)"
      using short_poll_exit [where env = env and i = 2 and s = ?s2 and k = k and j = 0 and w = 0, OF _ _ out] obs
      by (simp add: reads_left_0)
    then have sp: "fst (short_poll env k 2 0 ?s2) =
            Inr (Http 500 (JObj (fmap_of_list [(''error'', JStr ''Previous attempt failed''),
                                                (''detail'', from_column (response row))])))"
      by simp
    have "same_tables s (snd (snd (short_poll env k 2 0 ?s2)))"
      using t2 short_poll_quiet [OF assms(2)] by (rule same_tables_trans)
    then show ?thesis
      using pay_lost_parts [OF assms(1) sel False lost sp, of fault] False by simp
  qed
  show "reply (pay env fault req s) =
           (if status row = Completed then Http 200 (from_column (response row))
            else Http 500 (JObj (fmap_of_list [(''error'', JStr ''Previous attempt failed''),
                                                (''detail'', from_column (response row))])))"
    using both by blast
  show "same_tables s (final (pay env fault req s))"
    using both by blast
qed

text \<open>
  C4. The key's record is terminal. A request that passes the entry checks and presents
  the key gets the stored response, however often it is sent and whatever would happen
  to a payment transaction: HTTP 200 with the cached payload when the record is
  \<open>completed\<close>; HTTP 500 with the cached error as detail when it is \<open>failed\<close> and the
  request's \<open>user_id\<close> is within INT, from -2147483648 to 2147483647 (the handler
  tries the claim first, with that id).
  The payments table and the key records are left as they were: the payment INSERT is
  not executed again.
\<close>

theorem pay_terminal_replay:
  assumes "presents req k" and "primary_key s"
    and "row \<in> set (idempotency_keys s)" and "key row = k"
    and "status row = Completed
         \<or> (status row = Failed
             \<and> (\<forall>n. body_user_id req = Some n \<longrightarrow> - 2147483648 \<le> n \<and> n \<le> 2147483647))"
    and "\<forall>run \<in> set runs. quiet (fst run)"
  shows "fst (pay_repeated runs req s) =
           replicate (length runs)
             (if status row = Completed
              then Http 200 (case response row of None \<Rightarrow> JNull | Some v \<Rightarrow> v)
              else Http 500 (JObj (fmap_of_list
                     [(''error'', JStr ''Previous attempt failed''),
                      (''detail'', case response row of None \<Rightarrow> JNull | Some v \<Rightarrow> v)])))
       \<and> same_tables s (snd (pay_repeated runs req s))"
  using assms(2,3,6)
proof (induction runs arbitrary: s)
  case Nil
  then show ?case by (simp add: same_tables_refl)
next
  case (Cons run runs)
  obtain env fault where run: "run = (env, fault)"
    by (cases run)
  have q: "quiet env"
    using Cons.prems(3) run by simp
  note one = pay_terminal [OF assms(1) q Cons.prems(1,2) assms(4,5), of fault, unfolded from_column_def]
  let ?s' = "final (pay env fault req s)"
  have "primary_key ?s'" and "row \<in> set (idempotency_keys ?s')"
    using one(2) Cons.prems(1,2) by (simp_all add: same_tables_def primary_key_def)
  moreover have "\<forall>run \<in> set runs. quiet (fst run)"
    using Cons.prems(3) by simp
  ultimately have IH: "fst (pay_repeated runs req ?s') =
           replicate (length runs)
             (if status row = Completed
              then Http 200 (case response row of None \<Rightarrow> JNull | Some v \<Rightarrow> v)
              else Http 500 (JObj (fmap_of_list
                     [(''error'', JStr ''Previous attempt failed''),
                      (''detail'', case response row of None \<Rightarrow> JNull | Some v \<Rightarrow> v)])))
       \<and> same_tables ?s' (snd (pay_repeated runs req ?s'))"
    by (rule Cons.IH)
  then have "same_tables s (snd (pay_repeated runs req ?s'))"
    using one(2) same_tables_trans by blast
  then show ?case
    using IH one(1) by (simp add: run Let_def case_prod_beta)
qed

theorem pay_terminal_replay_witness:
  "fst (pay_repeated [(alone, None), (alone, Some ''down'')] (pay_7_100 ''k1'')
          (db_of [completed_row ''k1'' (fmap_of_list [(''success'', JBool True)])] 0))
     = [Http 200 (JObj (fmap_of_list [(''success'', JBool True)])),
        Http 200 (JObj (fmap_of_list [(''success'', JBool True)]))]
   \<and> fst (pay_repeated [(alone, None), (time_passes (\<lambda>i. 100), None)] (pay_7_100 ''k2'')
          (db_of [failed_row ''k2'' ''down''] 0))
     = [Http 500 (JObj (fmap_of_list
          [(''error'', JStr ''Previous attempt failed''),
           (''detail'', JObj (fmap_of_list [(''error'', JStr ''down'')]))])),
        Http 500 (JObj (fmap_of_list
          [(''error'', JStr ''Previous attempt failed''),
           (''detail'', JObj (fmap_of_list [(''error'', JStr ''down'')]))]))]
   \<and> same_tables (db_of [failed_row ''k2'' ''down''] 0)
        (snd (pay_repeated [(alone, None), (time_passes (\<lambda>i. 100), None)] (pay_7_100 ''k2'')
               (db_of [failed_row ''k2'' ''down''] 0)))"
proof -
  let ?c = "db_of [completed_row ''k1'' (fmap_of_list [(''success'', JBool True)])] 0"
  let ?f = "db_of [failed_row ''k2'' ''down''] 0"
  have p1: "presents (pay_7_100 ''k1'') ''k1''" and p2: "presents (pay_7_100 ''k2'') ''k2''"
    by (rule presents_pay_7_100, simp)+
  have pk1: "primary_key ?c" and pk2: "primary_key ?f"
    by (simp_all add: example_defs)
  have mem1: "completed_row ''k1'' (fmap_of_list [(''success'', JBool True)]) \<in> set (idempotency_keys ?c)"
    and mem2: "failed_row ''k2'' ''down'' \<in> set (idempotency_keys ?f)"
    by (simp_all add: db_of_def)
  have row1: "key (completed_row ''k1'' (fmap_of_list [(''success'', JBool True)])) = ''k1''"
    "status (completed_row ''k1'' (fmap_of_list [(''success'', JBool True)])) = Completed
     \<or> (status (completed_row ''k1'' (fmap_of_list [(''success'', JBool True)])) = Failed
         \<and> (\<forall>n. body_user_id (pay_7_100 ''k1'') = Some n
                \<longrightarrow> - 2147483648 \<le> n \<and> n \<le> 2147483647))"
    by (simp_all add: completed_row_def reserved_row_def)
  have row2: "key (failed_row ''k2'' ''down'') = ''k2''"
    "status (failed_row ''k2'' ''down'') = Completed
     \<or> (status (failed_row ''k2'' ''down'') = Failed
         \<and> (\<forall>n. body_user_id (pay_7_100 ''k2'') = Some n
                \<longrightarrow> - 2147483648 \<le> n \<and> n \<le> 2147483647))"
    by (simp_all add: failed_row_def reserved_row_def pay_7_100_def)
  have q1: "\<forall>run \<in> set [(alone, None), (alone, Some ''down'')]. quiet (fst run)"
    by (simp add: quiet_alone)
  have q2: "\<forall>run \<in> set [(alone, None), (time_passes (\<lambda>i. 100), None)]. quiet (fst run)"
    by (simp add: quiet_alone quiet_time_passes)
  show ?thesis
    using pay_terminal_replay [OF p1 pk1 mem1 row1 q1] pay_terminal_replay [OF p2 pk2 mem2 row2 q2]
    by (simp add: completed_row_def failed_row_def reserved_row_def)
qed

lemma mapped_member: "r \<in> set rows \<Longrightarrow> f r \<in> set (map f rows)"
  by (rule imageI [of r "set rows" f, folded set_map])

lemma payments_claim_update:
  "payments (snd (claim_update k (or_null uid) s)) = payments s"
  "payments_id_seq (snd (claim_update k (or_null uid) s)) = payments_id_seq s"
  by (simp_all add: claim_update_def Let_def)

lemma payments_record_result:
  "payments (record_result k st payload s) = payments s"
  "payments_id_seq (record_result k st payload s) = payments_id_seq s"
  by (simp_all add: record_result_def)

lemma recorded_member:
  assumes "r \<in> set (idempotency_keys s)" and "key r = k"
  shows "r\<lparr>status := st, response := Some (JObj payload), updated_at := now s\<rparr>
           \<in> set (idempotency_keys (record_result k st payload s))"
proof -
  let ?f = "\<lambda>r. if key r = k then r\<lparr>status := st, response := Some (JObj payload), updated_at := now s\<rparr>
               else r"
  have "?f r \<in> set (map ?f (idempotency_keys s))"
    using assms(1) by (rule mapped_member)
  then show ?thesis
    unfolding rows_record using assms(2) by simp
qed

lemma claimed_member:
  assumes "r \<in> set (idempotency_keys s)"
  shows "\<exists>r' \<in> set (idempotency_keys (snd (claim_update k (or_null uid) s))). key r' = key r"
proof -
  let ?f = "\<lambda>r. if claim_where k (or_null uid) (now s) r
               then r\<lparr>status := Processing, updated_at := now s\<rparr> else r"
  have "?f r \<in> set (map ?f (idempotency_keys s))"
    using assms(1) by (rule mapped_member)
  moreover have "key (?f r) = key r"
    by simp
  ultimately show ?thesis
    unfolding rows_claim by blast
qed

lemma record_then_select:
  assumes "primary_key s" and "r \<in> set (idempotency_keys s)" and "key r = k"
  shows "\<exists>r'. select_key k (record_result k st payload s) = [r']
            \<and> status r' = st \<and> response r' = Some (JObj payload)"
proof -
  let ?r' = "r\<lparr>status := st, response := Some (JObj payload), updated_at := now s\<rparr>"
  have "?r' \<in> set (idempotency_keys (record_result k st payload s))"
    using assms(2,3) by (rule recorded_member)
  moreover have "primary_key (record_result k st payload s)"
    using assms(1) by (rule primary_key_record)
  ultimately have "select_key (key ?r') (record_result k st payload s) = [?r']"
    by (rule select_key_member [rotated])
  then have "select_key k (record_result k st payload s) = [?r']"
    using assms(3) by simp
  then show ?thesis
    by simp
qed

lemma select_key_singleD:
  assumes "select_key k s = [r]"
  shows "r \<in> set (idempotency_keys s)" and "key r = k"
proof -
  have "r \<in> set (filter (\<lambda>r. key r = k) (idempotency_keys s))"
    using assms by (simp add: select_key_def)
  then show "r \<in> set (idempotency_keys s)" and "key r = k"
    by simp_all
qed

lemma same_tables_rows: "same_tables s s' \<Longrightarrow> idempotency_keys s' = idempotency_keys s"
  by (simp add: same_tables_def)

lemma decimal_digits: "set (decimal n) \<subseteq> set ''0123456789''"
proof (induction n rule: decimal.induct)
  case (1 n)
  have d: "''0123456789'' ! m \<in> set ''0123456789''" if "m < 10" for m
    using that by (intro nth_mem) simp
  show ?case
  proof (cases "n < 10")
    case True
    then show ?thesis
      using d [of n] by (subst decimal.simps) simp
  next
    case False
    have "n mod 10 < 10"
      by simp
    then show ?thesis
      using False 1 d [of "n mod 10"] by (subst decimal.simps) simp
  qed
qed

lemma TEXT_ok_decimal: "TEXT_ok (decimal n)"
  using decimal_digits [of n] unfolding TEXT_ok_def by auto

lemma TEXT_ok_out_of_range: "TEXT_ok (out_of_range n)"
  using TEXT_ok_decimal by (simp add: out_of_range_def show_int_def TEXT_ok_def)

lemma JSONB_ok_error: "JSONB_ok (JObj (fmap_of_list [(''error'', JStr msg)])) = TEXT_ok msg"
  by (auto simp: fmpred_iff TEXT_ok_def split: if_splits)

lemma JSONB_ok_responsePayload:
  "JSONB_ok (JObj (fmap_of_list [(''success'', JBool True), (''paymentId'', JNum n),
                                  (''created_at'', JTime t)]))"
  by (auto simp: fmpred_iff TEXT_ok_def split: if_splits)

lemma update_result_error:
  "TEXT_ok msg \<Longrightarrow>
     update_result k Failed (fmap_of_list [(''error'', JStr msg)]) s =
       Inr (record_result k Failed (fmap_of_list [(''error'', JStr msg)]) s)"
  unfolding update_result_def JSONB_ok_error by simp

text \<open>
  C6. The caller's claim returned true and the payment transaction then throws with the
  message \<open>msg\<close> (because the amount is outside INT, say), a text without NUL
  character, so that JSONB can record it; nobody else writes meanwhile. The handler
  answers HTTP 500 "Payment failed" with that message, the key's record is \<open>failed\<close>
  (not \<open>processing\<close>) when the handler returns, with the object \<open>{error: msg}\<close> as its
  response, and no payment row was written. Every later request that presents the key,
  with a \<open>user_id\<close> within INT (from -2147483648 to 2147483647), gets HTTP 500
  "Previous attempt failed" with the recorded object as detail, and leaves both tables
  as they are: the payment is not executed again.
\<close>

theorem pay_failure_recorded:
  assumes "presents req k" and "quiet env" and "primary_key s"
    and "tryClaimKey k (body_user_id req) (env 1 (env 0 s)) = Inr (True, s2)"
    and "insert_payment fault (the (body_user_id req)) (the (body_amount req)) (env 2 s2) = Inl msg"
    and "CHR 0x00 \<notin> set msg"
    and "pay env fault req s = out"
  shows "reply out = Http 500 (JObj (fmap_of_list [(''error'', JStr ''Payment failed''),
                                                    (''detail'', JStr msg)]))
       \<and> (\<exists>row'. select_key k (final out) = [row'] \<and> status row' = Failed
                  \<and> response row' = Some (JObj (fmap_of_list [(''error'', JStr msg)])))
       \<and> payments (final out) = payments s
       \<and> (\<forall>env2 fault2 req2.
             quiet env2 \<and> presents req2 k
             \<and> (\<forall>n. body_user_id req2 = Some n \<longrightarrow> - 2147483648 \<le> n \<and> n \<le> 2147483647) \<longrightarrow>
             reply (pay env2 fault2 req2 (final out)) =
               Http 500 (JObj (fmap_of_list
                 [(''error'', JStr ''Previous attempt failed''),
                  (''detail'', JObj (fmap_of_list [(''error'', JStr msg)]))]))
             \<and> same_tables (final out) (final (pay env2 fault2 req2 (final out))))"
proof -
  let ?s1 = "env 0 s"
  let ?s1' = "env 1 ?s1"
  let ?uid = "body_user_id req"
  let ?s2 = "snd (claim_update k (or_null ?uid) ?s1')"
  let ?s3 = "env 3 (env 2 ?s2)"
  let ?err = "fmap_of_list [(''error'', JStr msg)]"
  let ?fin = "record_result k Failed ?err ?s3"
  have t1: "same_tables s ?s1" and t1': "same_tables s ?s1'"
    using quiet_same_tables [OF assms(2)] same_tables_trans by blast+
  have pk1': "primary_key ?s1'"
    using assms(3) same_tables_primary_key [OF t1'] by simp
  have upd: "claim_update k (or_null ?uid) ?s1' = (True, s2)"
    using assms(4) by (rule tryClaimKey_Inr(2))
  have s2: "s2 = ?s2"
    using upd by simp
  have ok: "TEXT_ok msg"
    using assms(6) by (simp add: TEXT_ok_def)
  have adm: "admits k ?uid ?s1'"
    using fst_claim_update [OF pk1', of k ?uid] upd by simp
  then obtain r0 where r0: "r0 \<in> set (idempotency_keys ?s1')" "key r0 = k" "status r0 = Reserved"
    unfolding admits_def by blast
  have r0s: "r0 \<in> set (idempotency_keys s)"
    using r0(1) same_tables_rows [OF t1'] by simp
  have sel: "select_key k ?s1 = r0 # []"
    using select_key_member [OF assms(3) r0s] r0(2) same_tables_select [OF t1] by simp
  have st: "status r0 \<noteq> Completed"
    using r0(3) by simp
  have won: "tryClaimKey k ?uid ?s1' = Inr (True, ?s2)"
    using assms(4) unfolding s2 .
  have thrown: "insert_payment fault (the ?uid) (the (body_amount req)) (env 2 ?s2) = Inl msg"
    using assms(5) unfolding s2 .
  have out: "out = \<lparr>reply = Http 500 (JObj (fmap_of_list [(''error'', JStr ''Payment failed''),
                                                            (''detail'', JStr msg)])),
                    polls = 0, final = ?fin\<rparr>"
    using assms(7) thrown unfolding pay_won [OF assms(1) sel st won]
    by (simp add: claimed_branch_def update_result_error [OF ok, simplified] Let_def)
  have t3: "same_tables ?s2 ?s3"
    using quiet_same_tables [OF assms(2)] same_tables_trans by blast
  have pk3: "primary_key ?s3"
    using primary_key_claim [OF pk1', of k ?uid] same_tables_primary_key [OF t3] by simp
  obtain r2 where r2: "r2 \<in> set (idempotency_keys ?s3)" "key r2 = k"
    using claimed_member [OF r0(1), of k ?uid] r0(2) same_tables_rows [OF t3] by auto
  have pkf: "primary_key ?fin"
    using pk3 by (rule primary_key_record)
  from record_then_select [OF pk3 r2, of Failed ?err]
  obtain row' where row': "select_key k ?fin = [row']" "status row' = Failed"
    "response row' = Some (JObj ?err)"
    by blast
  have mem: "row' \<in> set (idempotency_keys ?fin)" and key': "key row' = k"
    using select_key_singleD [OF row'(1)] by blast+
  have pays: "payments ?fin = payments s"
    using t1' t3 by (simp add: payments_record_result payments_claim_update same_tables_def)
  have later: "reply (pay env2 fault2 req2 ?fin) =
               Http 500 (JObj (fmap_of_list
                 [(''error'', JStr ''Previous attempt failed''),
                  (''detail'', JObj (fmap_of_list [(''error'', JStr msg)]))]))
             \<and> same_tables ?fin (final (pay env2 fault2 req2 ?fin))"
    if "quiet env2 \<and> presents req2 k
        \<and> (\<forall>n. body_user_id req2 = Some n \<longrightarrow> - 2147483648 \<le> n \<and> n \<le> 2147483647)"
    for env2 fault2 req2
  proof -
    have q: "quiet env2" and p: "presents req2 k"
      and b: "\<forall>n. body_user_id req2 = Some n \<longrightarrow> - 2147483648 \<le> n \<and> n \<le> 2147483647"
      using that by blast+
    have f: "status row' = Completed
         \<or> (status row' = Failed
             \<and> (\<forall>n. body_user_id req2 = Some n \<longrightarrow> - 2147483648 \<le> n \<and> n \<le> 2147483647))"
      using row'(2) b by simp
    show ?thesis
      using pay_terminal [OF p q pkf mem key' f, of fault2] row'(2,3)
      by (simp add: from_column_def)
  qed
  have a: "reply out = Http 500 (JObj (fmap_of_list [(''error'', JStr ''Payment failed''),
                                                    (''detail'', JStr msg)]))"
    by (simp add: out)
  have b: "\<exists>row'. select_key k (final out) = [row'] \<and> status row' = Failed
                  \<and> response row' = Some (JObj (fmap_of_list [(''error'', JStr msg)]))"
    using row' by (simp add: out)
  have c: "payments (final out) = payments s"
    using pays by (simp add: out)
  have d: "\<forall>env2 fault2 req2.
             quiet env2 \<and> presents req2 k
             \<and> (\<forall>n. body_user_id req2 = Some n \<longrightarrow> - 2147483648 \<le> n \<and> n \<le> 2147483647) \<longrightarrow>
             reply (pay env2 fault2 req2 (final out)) =
               Http 500 (JObj (fmap_of_list
                 [(''error'', JStr ''Previous attempt failed''),
                  (''detail'', JObj (fmap_of_list [(''error'', JStr msg)]))]))
             \<and> same_tables (final out) (final (pay env2 fault2 req2 (final out)))"
    using later by (simp add: out)
  show ?thesis
    by (intro conjI a b c d)
qed

theorem pay_failure_recorded_witness:
  "reply (pay alone None \<lparr>idempotency_key = Some ''k1'', body_user_id = Some 7,
                          body_amount = Some 2147483648\<rparr>
            (db_of [reserved_row ''k1'' None (Some 100)] 50))
     = Http 500 (JObj (fmap_of_list
         [(''error'', JStr ''Payment failed''),
          (''detail'', JStr (''value '' @ [CHR 0x22] @ ''2147483648'' @ [CHR 0x22]
                              @ '' is out of range for type integer''))]))
   \<and> select_key ''k1'' (final (pay alone None \<lparr>idempotency_key = Some ''k1'', body_user_id = Some 7,
                          body_amount = Some 2147483648\<rparr>
            (db_of [reserved_row ''k1'' None (Some 100)] 50)))
     = [(reserved_row ''k1'' None (Some 100))
          \<lparr>status := Failed,
           response := Some (JObj (fmap_of_list [(''error'', JStr (out_of_range 2147483648))])),
           updated_at := 50\<rparr>]
   \<and> reply (pay alone None (pay_7_100 ''k1'')
        (final (pay alone None \<lparr>idempotency_key = Some ''k1'', body_user_id = Some 7,
                               body_amount = Some 2147483648\<rparr>
            (db_of [reserved_row ''k1'' None (Some 100)] 50))))
     = Http 500 (JObj (fmap_of_list
         [(''error'', JStr ''Previous attempt failed''),
          (''detail'', JObj (fmap_of_list [(''error'', JStr (out_of_range 2147483648))]))]))
   \<and> payments (final (pay alone None \<lparr>idempotency_key = Some ''k1'', body_user_id = Some 7,
                          body_amount = Some 2147483648\<rparr>
            (db_of [reserved_row ''k1'' None (Some 100)] 50))) = []"
proof -
  let ?s = "db_of [reserved_row ''k1'' None (Some 100)] 50"
  let ?req = "\<lparr>idempotency_key = Some ''k1'', body_user_id = Some 7, body_amount = Some 2147483648\<rparr>"
  have p: "presents ?req ''k1''"
    by (rule presents_pay) simp_all
  have p2: "presents (pay_7_100 ''k1'') ''k1''"
    by (rule presents_pay_7_100) simp
  have b2: "\<forall>n. body_user_id (pay_7_100 ''k1'') = Some n \<longrightarrow> - 2147483648 \<le> n \<and> n \<le> 2147483647"
    by (simp add: pay_7_100_def)
  have pk: "primary_key ?s"
    by (simp add: example_defs)
  let ?s2 = "db_of [(reserved_row ''k1'' None (Some 100))\<lparr>status := Processing, updated_at := 50\<rparr>] 50"
  have may: "tryClaimKey ''k1'' (body_user_id ?req) (alone 1 (alone 0 ?s)) = Inr (True, ?s2)"
    by (simp add: alone_def example_defs claim_defs)
  have thrown: "insert_payment None (the (body_user_id ?req)) (the (body_amount ?req)) (alone 2 ?s2)
                  = Inl (out_of_range 2147483648)"
    by (simp add: insert_payment_def INT_ok_def)
  have msg: "TEXT_ok (out_of_range 2147483648)"
    by (rule TEXT_ok_out_of_range)
  then have nul: "CHR 0x00 \<notin> set (out_of_range 2147483648)"
    by (simp add: TEXT_ok_def)
  note all = pay_failure_recorded [OF p quiet_alone pk may thrown nul refl]
  have later: "reply (pay alone None (pay_7_100 ''k1'') (final (pay alone None ?req ?s)))
          = Http 500 (JObj (fmap_of_list
              [(''error'', JStr ''Previous attempt failed''),
               (''detail'', JObj (fmap_of_list [(''error'', JStr (out_of_range 2147483648))]))]))"
    using all [THEN conjunct2, THEN conjunct2, THEN conjunct2, rule_format, of alone "pay_7_100 ''k1''" None]
      quiet_alone p2 b2 by blast
  have row: "select_key ''k1'' (final (pay alone None ?req ?s))
     = [(reserved_row ''k1'' None (Some 100))
          \<lparr>status := Failed,
           response := Some (JObj (fmap_of_list [(''error'', JStr (out_of_range 2147483648))])),
           updated_at := 50\<rparr>]"
    by (simp add: pay_def claimed_branch_def insert_payment_def record_result_def alone_def
          update_result_error [OF msg, simplified]
          falsy_text_def falsy_def select_key_def INT_ok_def Let_def example_defs claim_defs)
  have lit: "out_of_range 2147483648 =
      ''value '' @ [CHR 0x22] @ ''2147483648'' @ [CHR 0x22] @ '' is out of range for type integer''"
    by (simp add: out_of_range_def show_int_def decimal.simps)
  show ?thesis
    unfolding lit [symmetric] using all later row by (simp add: db_of_def)
qed

section \<open>Round trip\<close>

lemma select_key_tick: "select_key k (tick d s) = select_key k s"
  by (simp add: select_key_def idempotency_keys_tick)

lemma get_idempotency_found:
  assumes "select_key k s = [r]"
  shows "get_idempotency k s = Http 200 (row_json r)"
    and "member ''status'' (row_json r) = Some (JStr (status_text (status r)))"
    and "member ''response'' (row_json r) = Some (from_column (response r))"
  using assms by (simp_all add: get_idempotency_def row_json_def member_def)

lemma text_binds_iff: "text_binds p \<longleftrightarrow> (\<forall>x. p = Some x \<longrightarrow> CHR 0x00 \<notin> set x)"
  by (cases p) (simp_all add: text_binds_def TEXT_ok_def)

lemma claimed_branch_paid:
  assumes "INT_ok uid" and "INT_ok amt" and "INT_ok (payments_id_seq (env 2 s2) + 1)"
  shows "claimed_branch env None k uid amt s2 =
     \<lparr>reply = Http 200 (JObj (fmap_of_list
                 [(''success'', JBool True), (''paymentId'', JNum (payments_id_seq (env 2 s2) + 1)),
                  (''created_at'', JTime (now (env 2 s2)))])),
      polls = 0,
      final = record_result k Completed
                (fmap_of_list
                  [(''success'', JBool True), (''paymentId'', JNum (payments_id_seq (env 2 s2) + 1)),
                   (''created_at'', JTime (now (env 2 s2)))])
                (env 3 ((env 2 s2)
                   \<lparr>payments := payments (env 2 s2) @
                        [\<lparr>p_id = payments_id_seq (env 2 s2) + 1, p_user_id = uid, p_amount = amt,
                          p_created_at = now (env 2 s2)\<rparr>],
                    payments_id_seq := payments_id_seq (env 2 s2) + 1\<rparr>))\<rparr>"
  using assms by (simp add: claimed_branch_def insert_payment_def Let_def)

lemma issued:
  assumes "select_key k s = []"
    and "TIMESTAMP_ok (date_now + ttl * 60 * 1000)" and "binds (or_null owner)"
    and "text_binds (or_null_text opn)"
  shows "post_idempotency_keys ttl k date_now owner opn s =
           (Http 200 (JObj (fmap_of_list [(''idempotencyKey'', JStr k),
                                           (''reserved_until'', JTime (date_now + ttl * 60 * 1000))])),
            s\<lparr>idempotency_keys := idempotency_keys s @
                 [\<lparr>key = k, status = Reserved, response = None, user_id = or_null owner,
                   operation = or_null_text opn, reserved_until = Some (date_now + ttl * 60 * 1000),
                   created_at = now s, updated_at = now s\<rparr>]\<rparr>)"
proof -
  have fresh: "k \<notin> set (map key (idempotency_keys s))"
  proof
    assume "k \<in> set (map key (idempotency_keys s))"
    then obtain r where "r \<in> set (idempotency_keys s)" "key r = k"
      by (metis (no_types, lifting) imageE list.set_map)
    then have "r \<in> set (select_key k s)"
      by (simp add: select_key_def)
    then show False
      using assms(1) by simp
  qed
  show ?thesis
    using fresh assms(2,3,4) by (simp add: post_idempotency_keys_def Let_def)
qed

text \<open>
  C5. Round trip. From a database with no record of the key, with an owner id within INT
  (from -2147483648 to 2147483647, or none), an operation without NUL character (or
  none) and an expiry that TIMESTAMP can hold (the years 0001 to 9999), the key is
  issued (HTTP 200). Then

  \<^item> statement by statement: a caller whose id is within INT claims it (the claim returns
    true when the caller is the owner, or the key has none, and the reservation has not
    run out), an object \<open>m\<close> is written as the \<open>completed\<close> result (the write does not
    throw), and GET /idempotency/{key} answers 200 with a record whose status is
    \<open>completed\<close> and whose response is exactly \<open>m\<close>, for every object \<open>m\<close> that JSONB
    can hold and whatever time passes between the steps;

  \<^item> through the handler: POST /pay with the key, from such a caller before the
    reservation has run out, with an amount and the next payment id within INT, no fault
    in the payment transaction and nobody else writing, answers 200 with
    \<open>{success, paymentId, created_at}\<close>, writes the one payment row, and
    GET /idempotency/{key} then answers 200 with status \<open>completed\<close> and that same
    object as response.
\<close>

theorem issue_claim_complete_read:
  assumes "primary_key s" and "select_key k s = []"
    and "- 62135596800000 \<le> date_now + ttl * 60 * 1000
         \<and> date_now + ttl * 60 * 1000 \<le> 253402300799999"
    and "\<forall>n. or_null owner = Some n \<longrightarrow> - 2147483648 \<le> n \<and> n \<le> 2147483647"
    and "\<forall>x. or_null_text opn = Some x \<longrightarrow> CHR 0x00 \<notin> set x"
    and "post_idempotency_keys ttl k date_now owner opn s = (r1, s1)"
  shows "r1 = Http 200 (JObj (fmap_of_list
                 [(''idempotencyKey'', JStr k),
                  (''reserved_until'', JTime (date_now + ttl * 60 * 1000))]))
       \<and> (\<forall>caller d1 d2 d3 m.
            (\<forall>n. or_null caller = Some n \<longrightarrow> - 2147483648 \<le> n \<and> n \<le> 2147483647)
            \<and> now s + d1 < date_now + ttl * 60 * 1000
            \<and> (or_null owner = None \<or> or_null caller = or_null owner)
            \<and> JSONB_ok (JObj m) \<longrightarrow>
            (\<exists>s2 s3 body. tryClaimKey k caller (tick d1 s1) = Inr (True, s2)
                   \<and> update_result k Completed m (tick d2 s2) = Inr s3
                   \<and> get_idempotency k (tick d3 s3) = Http 200 body
                   \<and> member ''status'' body = Some (JStr ''completed'')
                   \<and> member ''response'' body = Some (JObj m)))
       \<and> (\<forall>env req.
            quiet env \<and> presents req k
            \<and> (\<forall>n. body_user_id req = Some n \<longrightarrow> - 2147483648 \<le> n \<and> n \<le> 2147483647)
            \<and> (\<forall>a. body_amount req = Some a \<longrightarrow> - 2147483648 \<le> a \<and> a \<le> 2147483647)
            \<and> - 2147483648 \<le> payments_id_seq s + 1 \<and> payments_id_seq s + 1 \<le> 2147483647
            \<and> now (env 1 (env 0 s1)) < date_now + ttl * 60 * 1000
            \<and> (or_null owner = None \<or> body_user_id req = or_null owner) \<longrightarrow>
            (\<exists>t body.
               reply (pay env None req s1) =
                 Http 200 (JObj (fmap_of_list
                   [(''success'', JBool True), (''paymentId'', JNum (payments_id_seq s + 1)),
                    (''created_at'', JTime t)]))
               \<and> payments (final (pay env None req s1)) =
                   payments s @ [\<lparr>p_id = payments_id_seq s + 1, p_user_id = the (body_user_id req),
                                  p_amount = the (body_amount req), p_created_at = t\<rparr>]
               \<and> get_idempotency k (final (pay env None req s1)) = Http 200 body
               \<and> member ''status'' body = Some (JStr ''completed'')
               \<and> member ''response'' body =
                   Some (JObj (fmap_of_list
                     [(''success'', JBool True), (''paymentId'', JNum (payments_id_seq s + 1)),
                      (''created_at'', JTime t)]))))"
proof -
  let ?R = "date_now + ttl * 60 * 1000"
  let ?new = "\<lparr>key = k, status = Reserved, response = None, user_id = or_null owner,
               operation = or_null_text opn, reserved_until = Some ?R,
               created_at = now s, updated_at = now s\<rparr>"
  have ts: "TIMESTAMP_ok ?R"
    using assms(3) by (simp add: TIMESTAMP_ok_def)
  have ow0: "binds (or_null owner)"
    using assms(4) by (simp add: binds_iff)
  have op: "text_binds (or_null_text opn)"
    using assms(5) by (simp add: text_binds_iff)
  note iss = issued [OF assms(2) ts ow0 op]
  have a: "r1 = Http 200 (JObj (fmap_of_list
                 [(''idempotencyKey'', JStr k), (''reserved_until'', JTime ?R)]))"
    using assms(6) unfolding iss by simp
  have s1: "s1 = snd (post_idempotency_keys ttl k date_now owner opn s)"
    using assms(6) by simp
  have rows1: "idempotency_keys s1 = idempotency_keys s @ [?new]"
    using assms(6) unfolding iss by auto
  have now1: "now s1 = now s" and pays1: "payments s1 = payments s"
    and seq1: "payments_id_seq s1 = payments_id_seq s"
    using assms(6) unfolding iss by auto
  have pk1: "primary_key s1"
    unfolding s1 using assms(1) by (rule primary_key_issue)
  have b: "\<exists>s2 s3 body. tryClaimKey k caller (tick d1 s1) = Inr (True, s2)
                   \<and> update_result k Completed m (tick d2 s2) = Inr s3
                   \<and> get_idempotency k (tick d3 s3) = Http 200 body
                   \<and> member ''status'' body = Some (JStr ''completed'')
                   \<and> member ''response'' body = Some (JObj m)"
    if h: "binds (or_null caller) \<and> now s + d1 < ?R
            \<and> (or_null owner = None \<or> or_null caller = or_null owner)
            \<and> JSONB_ok (JObj m)"
    for caller d1 d2 d3 m
  proof -
    let ?s2 = "snd (claim_update k (or_null caller) (tick d1 s1))"
    have new1: "?new \<in> set (idempotency_keys (tick d1 s1))"
      unfolding idempotency_keys_tick rows1 by simp
    have pkt: "primary_key (tick d1 s1)"
      unfolding primary_key_tick by (rule pk1)
    have "key ?new = k \<and> status ?new = Reserved
        \<and> (user_id ?new = None \<or> user_id ?new = or_null caller)
        \<and> (case reserved_until ?new of None \<Rightarrow> True | Some u \<Rightarrow> now (tick d1 s1) < u)"
      using h by (auto simp: tick_def now1)
    then have "admits k caller (tick d1 s1)"
      unfolding admits_def using new1 by blast
    then have may: "may_claim k caller (tick d1 s1)"
      using h by (simp add: may_claim_def)
    have won: "tryClaimKey k caller (tick d1 s1) = Inr (True, ?s2)"
      using pkt may by (rule tryClaimKey_won)
    obtain r2 where r2: "r2 \<in> set (idempotency_keys (tick d2 ?s2))" "key r2 = k"
      using claimed_member [OF new1, of k caller] unfolding idempotency_keys_tick by auto
    have pk2: "primary_key (tick d2 ?s2)"
      unfolding primary_key_tick using pkt by (rule primary_key_claim)
    from record_then_select [OF pk2 r2, of Completed m]
    obtain r3 where r3: "select_key k (record_result k Completed m (tick d2 ?s2)) = [r3]"
      "status r3 = Completed" "response r3 = Some (JObj m)"
      by blast
    have sel: "select_key k (tick d3 (record_result k Completed m (tick d2 ?s2))) = [r3]"
      using r3(1) by (simp add: select_key_tick)
    have upd: "update_result k Completed m (tick d2 ?s2) = Inr (record_result k Completed m (tick d2 ?s2))"
      using h unfolding update_result_def by (simp only: if_True)
    show ?thesis
      using won upd get_idempotency_found [OF sel] r3(2,3) by (simp add: from_column_def)
  qed
  have c: "\<exists>t body.
               reply (pay env None req s1) =
                 Http 200 (JObj (fmap_of_list
                   [(''success'', JBool True), (''paymentId'', JNum (payments_id_seq s + 1)),
                    (''created_at'', JTime t)]))
               \<and> payments (final (pay env None req s1)) =
                   payments s @ [\<lparr>p_id = payments_id_seq s + 1, p_user_id = the (body_user_id req),
                                  p_amount = the (body_amount req), p_created_at = t\<rparr>]
               \<and> get_idempotency k (final (pay env None req s1)) = Http 200 body
               \<and> member ''status'' body = Some (JStr ''completed'')
               \<and> member ''response'' body =
                   Some (JObj (fmap_of_list
                     [(''success'', JBool True), (''paymentId'', JNum (payments_id_seq s + 1)),
                      (''created_at'', JTime t)]))"
    if h: "quiet env \<and> presents req k \<and> binds (body_user_id req) \<and> INT_ok (the (body_amount req))
            \<and> INT_ok (payments_id_seq s + 1)
            \<and> now (env 1 (env 0 s1)) < ?R
            \<and> (or_null owner = None \<or> body_user_id req = or_null owner)"
    for env req
  proof -
    let ?uid = "body_user_id req"
    let ?s0 = "env 0 s1"
    let ?s1' = "env 1 ?s0"
    let ?s2 = "snd (claim_update k (or_null ?uid) ?s1')"
    let ?s3 = "env 2 ?s2"
    let ?t = "now ?s3"
    let ?P = "fmap_of_list
                [(''success'', JBool True), (''paymentId'', JNum (payments_id_seq s + 1)),
                 (''created_at'', JTime ?t)]"
    let ?p = "\<lparr>p_id = payments_id_seq s + 1, p_user_id = the ?uid,
               p_amount = the (body_amount req), p_created_at = ?t\<rparr>"
    let ?s4 = "?s3\<lparr>payments := payments ?s3 @ [?p], payments_id_seq := payments_id_seq s + 1\<rparr>"
    let ?s5 = "env 3 ?s4"
    let ?fin = "record_result k Completed ?P ?s5"
    have q: "quiet env" and p: "presents req k" and bu: "binds ?uid"
      and am: "INT_ok (the (body_amount req))" and sq: "INT_ok (payments_id_seq s + 1)"
      and tm: "now ?s1' < ?R" and ow: "or_null owner = None \<or> ?uid = or_null owner"
      using h by blast+
    have orn: "or_null ?uid = ?uid"
      using p by (rule presents_or_null)
    obtain u where u: "?uid = Some u"
      using p by (cases ?uid) (simp_all add: presents_def falsy_def)
    have iu: "INT_ok (the ?uid)"
      using bu u by (simp add: binds_def)
    have t0: "same_tables s1 ?s0" and t1: "same_tables s1 ?s1'"
      using quiet_same_tables [OF q] same_tables_trans by blast+
    have pk1': "primary_key ?s1'"
      using pk1 same_tables_primary_key [OF t1] by simp
    have news1: "?new \<in> set (idempotency_keys s1)"
      unfolding rows1 by simp
    have new1: "?new \<in> set (idempotency_keys ?s1')"
      using news1 same_tables_rows [OF t1] by simp
    have sel: "select_key k ?s0 = ?new # []"
      using select_key_member [OF pk1 news1] same_tables_select [OF t0] by simp
    have st: "status ?new \<noteq> Completed"
      by simp
    have "key ?new = k \<and> status ?new = Reserved
        \<and> (user_id ?new = None \<or> user_id ?new = or_null ?uid)
        \<and> (case reserved_until ?new of None \<Rightarrow> True | Some u \<Rightarrow> now ?s1' < u)"
      using ow tm orn by auto
    then have "admits k ?uid ?s1'"
      unfolding admits_def using new1 by blast
    then have may: "may_claim k ?uid ?s1'"
      using bu orn by (simp add: may_claim_def)
    have won: "tryClaimKey k ?uid ?s1' = Inr (True, ?s2)"
      using pk1' may by (rule tryClaimKey_won)
    have t3: "same_tables ?s2 ?s3"
      using q by (rule quiet_same_tables)
    have seq3: "payments_id_seq ?s3 = payments_id_seq s"
      using t3 t1 by (simp add: same_tables_def payments_claim_update seq1)
    have pays3: "payments ?s3 = payments s"
      using t3 t1 by (simp add: same_tables_def payments_claim_update pays1)
    have sq3: "INT_ok (payments_id_seq ?s3 + 1)"
      using sq seq3 by simp
    have out: "pay env None req s1 = \<lparr>reply = Http 200 (JObj ?P), polls = 0, final = ?fin\<rparr>"
      unfolding pay_won [OF p sel st won]
        claimed_branch_paid [where env = env and ?s2.0 = ?s2, OF iu am sq3, of k] seq3 ..
    have t5: "same_tables ?s4 ?s5"
      using q by (rule quiet_same_tables)
    have rows5: "idempotency_keys ?s5 = idempotency_keys ?s2"
      using t5 t3 by (simp add: same_tables_def)
    have pk5: "primary_key ?s5"
      using primary_key_claim [OF pk1', of k ?uid] unfolding primary_key_def rows5 .
    obtain r2 where r2: "r2 \<in> set (idempotency_keys ?s5)" "key r2 = k"
      using claimed_member [OF new1, of k ?uid] unfolding rows5 by auto
    from record_then_select [OF pk5 r2, of Completed ?P]
    obtain r3 where r3: "select_key k ?fin = [r3]" "status r3 = Completed"
      "response r3 = Some (JObj ?P)"
      by blast
    have pays: "payments ?fin = payments s @ [?p]"
      using t5 pays3 by (simp add: payments_record_result same_tables_def)
    have g: "get_idempotency k ?fin = Http 200 (row_json r3)"
      and ms: "member ''status'' (row_json r3) = Some (JStr ''completed'')"
      and mr: "member ''response'' (row_json r3) = Some (JObj ?P)"
      using get_idempotency_found [OF r3(1)] r3(2,3) by (simp_all add: from_column_def)
    show ?thesis
      unfolding out using pays g ms mr by (intro exI [of _ ?t] exI [of _ "row_json r3"]) simp
  qed
  have b': "\<forall>caller d1 d2 d3 m.
            (\<forall>n. or_null caller = Some n \<longrightarrow> - 2147483648 \<le> n \<and> n \<le> 2147483647)
            \<and> now s + d1 < date_now + ttl * 60 * 1000
            \<and> (or_null owner = None \<or> or_null caller = or_null owner)
            \<and> JSONB_ok (JObj m) \<longrightarrow>
            (\<exists>s2 s3 body. tryClaimKey k caller (tick d1 s1) = Inr (True, s2)
                   \<and> update_result k Completed m (tick d2 s2) = Inr s3
                   \<and> get_idempotency k (tick d3 s3) = Http 200 body
                   \<and> member ''status'' body = Some (JStr ''completed'')
                   \<and> member ''response'' body = Some (JObj m))"
    using b [unfolded binds_iff] by blast
  have c': "\<forall>env req.
            quiet env \<and> presents req k
            \<and> (\<forall>n. body_user_id req = Some n \<longrightarrow> - 2147483648 \<le> n \<and> n \<le> 2147483647)
            \<and> (\<forall>a. body_amount req = Some a \<longrightarrow> - 2147483648 \<le> a \<and> a \<le> 2147483647)
            \<and> - 2147483648 \<le> payments_id_seq s + 1 \<and> payments_id_seq s + 1 \<le> 2147483647
            \<and> now (env 1 (env 0 s1)) < date_now + ttl * 60 * 1000
            \<and> (or_null owner = None \<or> body_user_id req = or_null owner) \<longrightarrow>
            (\<exists>t body.
               reply (pay env None req s1) =
                 Http 200 (JObj (fmap_of_list
                   [(''success'', JBool True), (''paymentId'', JNum (payments_id_seq s + 1)),
                    (''created_at'', JTime t)]))
               \<and> payments (final (pay env None req s1)) =
                   payments s @ [\<lparr>p_id = payments_id_seq s + 1, p_user_id = the (body_user_id req),
                                  p_amount = the (body_amount req), p_created_at = t\<rparr>]
               \<and> get_idempotency k (final (pay env None req s1)) = Http 200 body
               \<and> member ''status'' body = Some (JStr ''completed'')
               \<and> member ''response'' body =
                   Some (JObj (fmap_of_list
                     [(''success'', JBool True), (''paymentId'', JNum (payments_id_seq s + 1)),
                      (''created_at'', JTime t)])))"
  proof (intro allI impI)
    fix env req
    assume e: "quiet env \<and> presents req k
            \<and> (\<forall>n. body_user_id req = Some n \<longrightarrow> - 2147483648 \<le> n \<and> n \<le> 2147483647)
            \<and> (\<forall>a. body_amount req = Some a \<longrightarrow> - 2147483648 \<le> a \<and> a \<le> 2147483647)
            \<and> - 2147483648 \<le> payments_id_seq s + 1 \<and> payments_id_seq s + 1 \<le> 2147483647
            \<and> now (env 1 (env 0 s1)) < date_now + ttl * 60 * 1000
            \<and> (or_null owner = None \<or> body_user_id req = or_null owner)"
    then have "presents req k"
      by blast
    then obtain a where a: "body_amount req = Some a"
      by (cases "body_amount req") (simp_all add: presents_def falsy_def)
    have "quiet env \<and> presents req k \<and> binds (body_user_id req) \<and> INT_ok (the (body_amount req))
            \<and> INT_ok (payments_id_seq s + 1)
            \<and> now (env 1 (env 0 s1)) < ?R
            \<and> (or_null owner = None \<or> body_user_id req = or_null owner)"
      using e a by (simp add: binds_iff INT_ok_def)
    then show "\<exists>t body.
               reply (pay env None req s1) =
                 Http 200 (JObj (fmap_of_list
                   [(''success'', JBool True), (''paymentId'', JNum (payments_id_seq s + 1)),
                    (''created_at'', JTime t)]))
               \<and> payments (final (pay env None req s1)) =
                   payments s @ [\<lparr>p_id = payments_id_seq s + 1, p_user_id = the (body_user_id req),
                                  p_amount = the (body_amount req), p_created_at = t\<rparr>]
               \<and> get_idempotency k (final (pay env None req s1)) = Http 200 body
               \<and> member ''status'' body = Some (JStr ''completed'')
               \<and> member ''response'' body =
                   Some (JObj (fmap_of_list
                     [(''success'', JBool True), (''paymentId'', JNum (payments_id_seq s + 1)),
                      (''created_at'', JTime t)]))"
      by (rule c)
  qed
  show ?thesis
    by (intro conjI a b' c')
qed

theorem issue_claim_complete_read_witness:
  "fst (post_idempotency_keys 1440 ''k1'' 0 (Some 7) (Some ''pay'') (db_of [] 0))
     = Http 200 (JObj (fmap_of_list [(''idempotencyKey'', JStr ''k1''),
                                      (''reserved_until'', JTime 86400000)]))
   \<and> (\<exists>s2 s3 body.
         tryClaimKey ''k1'' (Some 7)
           (tick 5 (snd (post_idempotency_keys 1440 ''k1'' 0 (Some 7) (Some ''pay'') (db_of [] 0))))
           = Inr (True, s2)
         \<and> update_result ''k1'' Completed (fmap_of_list [(''note'', JStr ''done'')]) (tick 3 s2) = Inr s3
         \<and> get_idempotency ''k1'' (tick 1 s3) = Http 200 body
         \<and> member ''status'' body = Some (JStr ''completed'')
         \<and> member ''response'' body = Some (JObj (fmap_of_list [(''note'', JStr ''done'')])))
   \<and> reply (pay alone None (pay_7_100 ''k1'')
              (snd (post_idempotency_keys 1440 ''k1'' 0 (Some 7) (Some ''pay'') (db_of [] 0))))
       = Http 200 (JObj (fmap_of_list
           [(''success'', JBool True), (''paymentId'', JNum 1), (''created_at'', JTime 0)]))
   \<and> payments (final (pay alone None (pay_7_100 ''k1'')
              (snd (post_idempotency_keys 1440 ''k1'' 0 (Some 7) (Some ''pay'') (db_of [] 0)))))
       = [\<lparr>p_id = 1, p_user_id = 7, p_amount = 100, p_created_at = 0\<rparr>]
   \<and> (\<exists>body.
         get_idempotency ''k1'' (final (pay alone None (pay_7_100 ''k1'')
              (snd (post_idempotency_keys 1440 ''k1'' 0 (Some 7) (Some ''pay'') (db_of [] 0)))))
           = Http 200 body
         \<and> member ''status'' body = Some (JStr ''completed'')
         \<and> member ''response'' body =
             Some (JObj (fmap_of_list
               [(''success'', JBool True), (''paymentId'', JNum 1), (''created_at'', JTime 0)])))"
proof -
  let ?s = "db_of [] 0"
  let ?s1 = "snd (post_idempotency_keys 1440 ''k1'' 0 (Some 7) (Some ''pay'') ?s)"
  let ?r1 = "fst (post_idempotency_keys 1440 ''k1'' 0 (Some 7) (Some ''pay'') ?s)"
  let ?out = "pay alone None (pay_7_100 ''k1'') ?s1"
  have pk: "primary_key ?s"
    by (simp add: example_defs)
  have none: "select_key ''k1'' ?s = []"
    by (simp add: select_key_def db_of_def)
  have ts: "- 62135596800000 \<le> (0::int) + 1440 * 60 * 1000 \<and> (0::int) + 1440 * 60 * 1000 \<le> 253402300799999"
    by simp
  have ow: "\<forall>n. or_null (Some 7) = Some n \<longrightarrow> - 2147483648 \<le> n \<and> n \<le> 2147483647"
    by (simp add: or_null_def falsy_def)
  have issue: "post_idempotency_keys 1440 ''k1'' 0 (Some 7) (Some ''pay'') ?s = (?r1, ?s1)"
    by simp
  have op: "\<forall>x. or_null_text (Some ''pay'') = Some x \<longrightarrow> CHR 0x00 \<notin> set x"
    by (simp add: or_null_text_def falsy_text_def)
  have m: "JSONB_ok (JObj (fmap_of_list [(''note'', JStr ''done'')]))"
    by (auto simp: fmpred_iff TEXT_ok_def split: if_splits)
  note all = issue_claim_complete_read [OF pk none ts ow op issue]
  have first: "?r1 = Http 200 (JObj (fmap_of_list [(''idempotencyKey'', JStr ''k1''),
                                      (''reserved_until'', JTime 86400000)]))"
    using all [THEN conjunct1] by simp
  have h2: "(\<forall>n. or_null (Some 7) = Some n \<longrightarrow> - 2147483648 \<le> n \<and> n \<le> 2147483647)
            \<and> now ?s + 5 < 0 + 1440 * 60 * 1000
            \<and> (or_null (Some 7) = None \<or> or_null (Some 7) = or_null (Some 7))
            \<and> JSONB_ok (JObj (fmap_of_list [(''note'', JStr ''done'')]))"
    using ow m by (simp add: db_of_def)
  have second: "\<exists>s2 s3 body.
         tryClaimKey ''k1'' (Some 7) (tick 5 ?s1) = Inr (True, s2)
         \<and> update_result ''k1'' Completed (fmap_of_list [(''note'', JStr ''done'')]) (tick 3 s2) = Inr s3
         \<and> get_idempotency ''k1'' (tick 1 s3) = Http 200 body
         \<and> member ''status'' body = Some (JStr ''completed'')
         \<and> member ''response'' body = Some (JObj (fmap_of_list [(''note'', JStr ''done'')]))"
    using all [THEN conjunct2, THEN conjunct1, rule_format, OF h2] .
  have p: "presents (pay_7_100 ''k1'') ''k1''"
    by (rule presents_pay_7_100) simp
  have now1: "now (alone 1 (alone 0 ?s1)) = 0"
    by (simp add: alone_def post_idempotency_keys_def Let_def db_of_def split: if_splits)
  have h3: "quiet alone \<and> presents (pay_7_100 ''k1'') ''k1''
            \<and> (\<forall>n. body_user_id (pay_7_100 ''k1'') = Some n \<longrightarrow> - 2147483648 \<le> n \<and> n \<le> 2147483647)
            \<and> (\<forall>a. body_amount (pay_7_100 ''k1'') = Some a \<longrightarrow> - 2147483648 \<le> a \<and> a \<le> 2147483647)
            \<and> - 2147483648 \<le> payments_id_seq ?s + 1 \<and> payments_id_seq ?s + 1 \<le> 2147483647
            \<and> now (alone 1 (alone 0 ?s1)) < 0 + 1440 * 60 * 1000
            \<and> (or_null (Some 7) = None \<or> body_user_id (pay_7_100 ''k1'') = or_null (Some 7))"
    unfolding now1 using quiet_alone p
    by (simp add: pay_7_100_def db_of_def or_null_def falsy_def)
  from all [THEN conjunct2, THEN conjunct2, rule_format, OF h3]
  obtain t body where third:
    "reply ?out = Http 200 (JObj (fmap_of_list
        [(''success'', JBool True), (''paymentId'', JNum (payments_id_seq ?s + 1)),
         (''created_at'', JTime t)]))"
    "payments (final ?out) =
        payments ?s @ [\<lparr>p_id = payments_id_seq ?s + 1, p_user_id = the (body_user_id (pay_7_100 ''k1'')),
                        p_amount = the (body_amount (pay_7_100 ''k1'')), p_created_at = t\<rparr>]"
    "get_idempotency ''k1'' (final ?out) = Http 200 body"
    "member ''status'' body = Some (JStr ''completed'')"
    "member ''response'' body =
        Some (JObj (fmap_of_list
          [(''success'', JBool True), (''paymentId'', JNum (payments_id_seq ?s + 1)),
           (''created_at'', JTime t)]))"
    by blast
  have made: "payments (final ?out) = [\<lparr>p_id = 1, p_user_id = 7, p_amount = 100, p_created_at = 0\<rparr>]"
    by (simp add: pay_def claimed_branch_def insert_payment_def record_result_def alone_def
          post_idempotency_keys_def TIMESTAMP_ok_def binds_def text_binds_def TEXT_ok_def
          or_null_def or_null_text_def
          falsy_text_def falsy_def select_key_def INT_ok_def Let_def pay_7_100_def
          example_defs claim_defs)
  have t: "t = 0"
    using third(2) unfolding made by (simp add: db_of_def)
  have seq: "payments_id_seq ?s + 1 = 1"
    by (simp add: db_of_def)
  have reply: "reply ?out = Http 200 (JObj (fmap_of_list
           [(''success'', JBool True), (''paymentId'', JNum 1), (''created_at'', JTime 0)]))"
    using third(1) unfolding t seq .
  have read: "\<exists>body.
         get_idempotency ''k1'' (final ?out) = Http 200 body
         \<and> member ''status'' body = Some (JStr ''completed'')
         \<and> member ''response'' body =
             Some (JObj (fmap_of_list
               [(''success'', JBool True), (''paymentId'', JNum 1), (''created_at'', JTime 0)]))"
    using third(3,4,5) unfolding t seq by blast
  show ?thesis
    by (intro conjI first second reply made read)
qed

section \<open>Inputs that the database refuses\<close>

text \<open>
  A \<open>user_id\<close> above INT at POST /idempotency-keys, or a lifetime that takes the expiry
  past the year 9999: the INSERT throws, the answer is 500 and no key is issued.
\<close>

lemma issue_user_id_out_of_range:
  "post_idempotency_keys 1440 ''k1'' 0 (Some 2147483648) None (db_of [] 0) =
     (Http 500 (JObj (fmap_of_list [(''error'', JStr ''failed to create idempotency key'')])),
      db_of [] 0)"
  by (simp add: post_idempotency_keys_def binds_def INT_ok_def or_null_def falsy_def)

lemma issue_expiry_out_of_range:
  "post_idempotency_keys 1440 ''k1'' 253402300800000 None None (db_of [] 0) =
     (Http 500 (JObj (fmap_of_list [(''error'', JStr ''failed to create idempotency key'')])),
      db_of [] 0)"
  by (simp add: post_idempotency_keys_def TIMESTAMP_ok_def)

text \<open>
  A \<open>user_id\<close> above INT at POST /pay, on a key that could be claimed: the claim throws,
  the outer \<open>catch\<close> answers 500 "Server error", and the record stays \<open>reserved\<close>.
\<close>

lemma pay_user_id_out_of_range:
  "pay alone None \<lparr>idempotency_key = Some ''k1'', body_user_id = Some 2147483648,
                    body_amount = Some 100\<rparr>
       (db_of [reserved_row ''k1'' None (Some 100)] 50) =
     \<lparr>reply = Http 500 (JObj (fmap_of_list
         [(''error'', JStr ''Server error''),
          (''detail'', JStr (''value '' @ [CHR 0x22] @ ''2147483648'' @ [CHR 0x22]
                              @ '' is out of range for type integer''))])),
      polls = 0, final = db_of [reserved_row ''k1'' None (Some 100)] 50\<rparr>"
  by (simp add: pay_def alone_def falsy_text_def falsy_def select_key_def Let_def
        example_defs claim_defs out_of_range_def show_int_def decimal.simps)

text \<open>
  The sequence of \<open>payments.id\<close> is used up: the payment transaction throws after the
  claim, and the record becomes \<open>failed\<close>.
\<close>

lemma pay_sequence_used_up:
  "reply (pay alone None (pay_7_100 ''k1'')
            ((db_of [reserved_row ''k1'' None (Some 100)] 50)\<lparr>payments_id_seq := 2147483647\<rparr>)) =
     Http 500 (JObj (fmap_of_list
       [(''error'', JStr ''Payment failed''),
        (''detail'', JStr (''nextval: reached maximum value of sequence '' @ [CHR 0x22]
                            @ ''payments_id_seq'' @ [CHR 0x22] @ '' (2147483647)''))]))"
  by (simp add: pay_def claimed_branch_def insert_payment_def update_result_def record_result_def
        alone_def falsy_text_def falsy_def select_key_def INT_ok_def Let_def pay_7_100_def
        sequence_exhausted_def TEXT_ok_def fmpred_iff example_defs claim_defs)

text \<open>
  The payment transaction fails with a message that carries a NUL character: JSONB
  refuses the object that would record it, the write of \<open>failed\<close> throws inside the
  \<open>catch\<close> block, the outer \<open>catch\<close> answers, and the record stays \<open>processing\<close>.
\<close>

lemma pay_failure_not_recorded:
  "pay alone (Some [CHR 0x00]) (pay_7_100 ''k1'') (db_of [reserved_row ''k1'' None (Some 100)] 50) =
     \<lparr>reply = Http 500 (JObj (fmap_of_list
         [(''error'', JStr ''Server error''),
          (''detail'', JStr ''unsupported Unicode escape sequence'')])),
      polls = 0,
      final = db_of [(reserved_row ''k1'' None (Some 100))\<lparr>status := Processing, updated_at := 50\<rparr>] 50\<rparr>"
proof -
  have refused: "update_result k Failed (fmap_of_list [(''error'', JStr [CHR 0x00])]) s
                   = Inl unsupported_escape" for k s
    unfolding update_result_def JSONB_ok_error by (simp add: TEXT_ok_def)
  show ?thesis
    by (simp add: pay_def claimed_branch_def insert_payment_def refused [simplified]
          alone_def falsy_text_def falsy_def select_key_def Let_def pay_7_100_def
          unsupported_escape_def example_defs claim_defs)
qed

end
